theory Spec2Isabelle
  imports Main "HOL-Library.Sublist"
begin

section \<open>Regular expressions of the source, with backtracking\<close>

text \<open>
  The source scans text with three regular-expression literals: \<^verbatim>\<open>jsonPattern\<close> and
  \<^verbatim>\<open>funcPattern\<close> in \<^verbatim>\<open>OllamaClient.parseToolCalls\<close>, and the file-path pattern of
  \<^verbatim>\<open>Summarizer.fallbackSummary\<close>. A literal is transcribed as a term of \<open>rx\<close> and run by
  a backtracking matcher that lists every way the expression can match at a cursor, in
  the order a backtracking engine tries them; the head of the list is the match found.

  A text is a list of code units. The cursor is the code unit just before the current
  position (needed by \<^verbatim>\<open>\b\<close>) and the text that remains.
\<close>

datatype rx =
    Cls "char \<Rightarrow> bool"
  | Seq rx rx
  | Alt rx rx
  | Star rx
  | Grp nat rx
  | WordB

type_synonym cursor = "char option \<times> string"
type_synonym caps = "(nat \<times> string) list"

definition is_word :: "char \<Rightarrow> bool" where
  \<comment> \<open>\<^verbatim>\<open>\w\<close>: \<^verbatim>\<open>[A-Za-z0-9_]\<close>\<close>
  "is_word c = (let n = (of_char c :: nat) in
     (97 \<le> n \<and> n \<le> 122) \<or> (65 \<le> n \<and> n \<le> 90) \<or> (48 \<le> n \<and> n \<le> 57) \<or> n = 95)"

definition is_space :: "char \<Rightarrow> bool" where
  \<comment> \<open>\<^verbatim>\<open>\s\<close> on code units below 256: tab, line feed, vertical tab, form feed, carriage
     return, space and the no-break space\<close>
  "is_space c = (let n = (of_char c :: nat) in (9 \<le> n \<and> n \<le> 13) \<or> n = 32 \<or> n = 160)"

function rx_match :: "rx \<Rightarrow> cursor \<Rightarrow> caps \<Rightarrow> (cursor \<times> caps) list" where
  "rx_match (Cls P) (p, s) c =
     (case s of [] \<Rightarrow> [] | x # xs \<Rightarrow> if P x then [((Some x, xs), c)] else [])"
| "rx_match (Seq r1 r2) (p, s) c =
     concat (map (\<lambda>(cur, c'). rx_match r2 cur c') (rx_match r1 (p, s) c))"
| "rx_match (Alt r1 r2) (p, s) c = rx_match r1 (p, s) c @ rx_match r2 (p, s) c"
| "rx_match (Star r) (p, s) c =
     concat (map (\<lambda>(cur, c'). if length (snd cur) < length s then rx_match (Star r) cur c' else [])
                 (rx_match r (p, s) c))
     @ [((p, s), c)]"
| "rx_match (Grp k r) (p, s) c =
     map (\<lambda>(cur, c'). (cur, (k, take (length s - length (snd cur)) s) # c')) (rx_match r (p, s) c)"
| "rx_match WordB (p, s) c =
     (if (case p of None \<Rightarrow> False | Some x \<Rightarrow> is_word x) \<noteq> (case s of [] \<Rightarrow> False | x # _ \<Rightarrow> is_word x)
      then [((p, s), c)] else [])"
  by pat_completeness auto
termination
  by (relation "measures [\<lambda>(r, cur, c). size r, \<lambda>(r, cur, c). length (snd cur)]") auto

text \<open>
  The greedy star tries one more iteration before it tries to stop, and an iteration that
  consumes nothing is rejected, as in ECMAScript. \<open>Grp k r\<close> is the capture group
  numbered \<open>k\<close>; the text it captured is consed onto the captures, so \<open>map_of\<close> reads the
  latest capture of a group.
\<close>

definition Chr :: "char \<Rightarrow> rx" where
  "Chr a = Cls (\<lambda>x. x = a)"

definition Plus :: "rx \<Rightarrow> rx" where
  "Plus r = Seq r (Star r)"

fun Lit :: "string \<Rightarrow> rx" where
  "Lit [] = Star (Cls (\<lambda>x. False))"
| "Lit [a] = Chr a"
| "Lit (a # as) = Seq (Chr a) (Lit as)"

fun Seqs :: "rx list \<Rightarrow> rx" where
  "Seqs [] = Star (Cls (\<lambda>x. False))"
| "Seqs [r] = r"
| "Seqs (r # rs) = Seq r (Seqs rs)"

fun Alts :: "rx list \<Rightarrow> rx" where
  "Alts [] = Cls (\<lambda>x. False)"
| "Alts [r] = r"
| "Alts (r # rs) = Alt r (Alts rs)"

text \<open>
  \<^verbatim>\<open>String.prototype.match\<close> with a global expression: every match, left to right, each
  search starting where the last match ended; after an empty match the search moves on by
  one code unit.
\<close>

function match_all :: "rx \<Rightarrow> char option \<Rightarrow> string \<Rightarrow> string list" where
  "match_all r p s =
     (case rx_match r (p, s) [] of
        [] \<Rightarrow> (case s of [] \<Rightarrow> [] | x # xs \<Rightarrow> match_all r (Some x) xs)
      | ((p', s'), c) # _ \<Rightarrow>
          if length s' < length s then take (length s - length s') s # match_all r p' s'
          else [] # (case s of [] \<Rightarrow> [] | x # xs \<Rightarrow> match_all r (Some x) xs))"
  by pat_completeness auto
termination
  by (relation "measure (\<lambda>(r, p, s). length s)") auto

declare match_all.simps [simp del]

text \<open>
  \<open>adv p xs\<close> is the code unit before the cursor once the matcher has moved over \<open>xs\<close>.
\<close>

fun adv :: "char option \<Rightarrow> string \<Rightarrow> char option" where
  "adv p [] = p"
| "adv p (x # xs) = adv (Some x) xs"

section \<open>Session data (src/session/types.ts)\<close>

datatype role = System | User | Assistant | Tool

record message =
  role :: role
  content :: string
  timestamp :: int

datatype task_status = Pending | InProgress | Completed

record task =
  task_id :: string
  task_content :: string
  status :: task_status
  task_created :: int

record session =
  session_id :: string
  projectRoot :: string
  model :: string
  messages :: "message list"
  summary :: "string option"
  summaryUpTo :: int
  todos :: "task list"
  created :: int
  updated :: int

text \<open>
  \<open>summary\<close> is \<^verbatim>\<open>string | null\<close>: \<open>None\<close> is \<^verbatim>\<open>null\<close>. The source tests it for truthiness,
  which \<^verbatim>\<open>null\<close> and the empty string both fail. Timestamps are the integers of
  \<^verbatim>\<open>Date.now()\<close>.
\<close>

definition truthy :: "string option \<Rightarrow> bool" where
  "truthy s = (case s of None \<Rightarrow> False | Some t \<Rightarrow> t \<noteq> [])"

section \<open>Summarizer (src/session/summarizer.ts)\<close>

definition SUMMARIZE_PROMPT :: string where
  "SUMMARIZE_PROMPT =
     ''You are a conversation summarizer. Summarize the following conversation between a user and an AI assistant (Spot).\<newline>\<newline>'' @
     ''Focus on:\<newline>'' @
     ''- Key decisions made\<newline>'' @
     ''- Important facts established\<newline>'' @
     ''- Tasks completed or in progress\<newline>'' @
     ''- Any code changes or file modifications\<newline>'' @
     ''- Context the assistant needs to continue helping\<newline>\<newline>'' @
     ''Be concise but preserve critical details. Output only the summary, no preamble.\<newline>\<newline>'' @
     ''Conversation:\<newline>''"

fun join :: "string \<Rightarrow> string list \<Rightarrow> string" where
  "join sep [] = []"
| "join sep [x] = x"
| "join sep (x # xs) = x @ sep @ join sep xs"

definition digit_char :: "nat \<Rightarrow> char" where
  "digit_char d = char_of (48 + d)"

fun show_nat :: "nat \<Rightarrow> string" where
  "show_nat n = (if n < 10 then [digit_char n] else show_nat (n div 10) @ [digit_char (n mod 10)])"

definition uniq :: "'a list \<Rightarrow> 'a list" where
  \<comment> \<open>\<^verbatim>\<open>[...new Set(xs)]\<close>: the distinct elements in the order of their first occurrence\<close>
  "uniq xs = rev (remdups (rev xs))"

definition format_message :: "message \<Rightarrow> string" where
  "format_message m =
     (let r = (if role m = User then ''User'' else if role m = Assistant then ''Spot'' else ''Tool'');
          c = (if length (content m) > 2000 then take 2000 (content m) @ ''...[truncated]''
               else content m)
      in r @ '': '' @ c)"

definition path_char :: "char \<Rightarrow> bool" where
  "path_char c = (c = CHR ''/'' \<or> is_word c \<or> c = CHR ''.'' \<or> c = CHR ''-'')"

definition pathPattern :: rx where
  \<comment> \<open>\<^verbatim>\<open>/[\/\w.-]+\.\w+/g\<close>\<close>
  "pathPattern = Seqs [Plus (Cls path_char), Chr CHR ''.'', Plus (Cls is_word)]"

definition path_like :: "string \<Rightarrow> bool" where
  \<comment> \<open>the texts the file-path pattern matches as a whole\<close>
  "path_like x = (\<exists>a b. x = a @ ''.'' @ b \<and> a \<noteq> [] \<and> list_all path_char a \<and> b \<noteq> [] \<and> list_all is_word b)"

definition fallbackSummary :: "message list \<Rightarrow> string" where
  "fallbackSummary msgs =
     (let userMessages = length (filter (\<lambda>m. role m = User) msgs);
          assistantMessages = length (filter (\<lambda>m. role m = Assistant) msgs);
          allContent = join '' '' (map content msgs);
          filePaths = match_all pathPattern None allContent;
          uniquePaths = take 10 (uniq filePaths);
          summary0 = ''Previous conversation: '' @ show_nat userMessages @ '' user messages, ''
                     @ show_nat assistantMessages @ '' assistant responses.''
      in if length uniquePaths > 0
         then summary0 @ '' Files discussed: '' @ join '', '' uniquePaths @ ''.''
         else summary0)"

text \<open>
  The digest request goes to the model backend, which is outside the program: \<open>backend\<close>
  maps the prompt to \<open>Inr\<close> the text of the reply, or to \<open>Inl\<close> the error the request
  throws.
\<close>

definition digest_prompt :: "message list \<Rightarrow> string" where
  "digest_prompt msgs =
     (let formatted = join ''\<newline>\<newline>'' (map format_message (filter (\<lambda>m. role m \<noteq> System) msgs))
      in SUMMARIZE_PROMPT @ formatted)"

definition summarize :: "(string \<Rightarrow> string + string) \<Rightarrow> message list \<Rightarrow> string" where
  "summarize backend msgs =
     (let prompt = digest_prompt msgs
      in case backend prompt of
           Inr reply \<Rightarrow> reply
         | Inl error \<Rightarrow> fallbackSummary msgs)"

definition estimateTokens :: "string \<Rightarrow> nat" where
  \<comment> \<open>\<^verbatim>\<open>Math.ceil(text.length / 4)\<close>\<close>
  "estimateTokens text = (length text + 3) div 4"

definition estimateMessagesTokens :: "message list \<Rightarrow> nat" where
  "estimateMessagesTokens msgs = foldl (\<lambda>sum m. sum + estimateTokens (content m)) 0 msgs"

section \<open>Session manager (src/session/index.ts)\<close>

definition CONTEXT_THRESHOLD :: nat where
  "CONTEXT_THRESHOLD = 24000"

definition KEEP_RECENT_MESSAGES :: nat where
  "KEEP_RECENT_MESSAGES = 10"

text \<open>
  The manager owns the session, the \<open>dirty\<close> flag and the auto-save timer; \<open>saveTimeout\<close>
  says whether a timer is pending. What the timer does when it fires is not part of an
  operation and is not modelled.
\<close>

record manager =
  session :: session
  dirty :: bool
  saveTimeout :: bool

definition markDirty :: "manager \<Rightarrow> manager" where
  "markDirty mgr = mgr\<lparr>dirty := True, saveTimeout := True\<rparr>"

text \<open>
  \<^verbatim>\<open>randomUUID()\<close> and \<^verbatim>\<open>Date.now()\<close> are read from outside; each value read is an
  argument of the operation that reads it, in the order of the reads.
\<close>

definition createEmptySession :: "string \<Rightarrow> int \<Rightarrow> int \<Rightarrow> string \<Rightarrow> string \<Rightarrow> session" where
  "createEmptySession uuid now1 now2 root mdl =
     \<lparr>session_id = uuid, projectRoot = root, model = mdl, messages = [], summary = None,
      summaryUpTo = 0, todos = [], created = now1, updated = now2\<rparr>"

definition setModel :: "string \<Rightarrow> manager \<Rightarrow> manager" where
  "setModel mdl mgr = markDirty (mgr\<lparr>session := (session mgr)\<lparr>model := mdl\<rparr>\<rparr>)"

definition addMessage :: "role \<Rightarrow> string \<Rightarrow> int \<Rightarrow> int \<Rightarrow> manager \<Rightarrow> manager" where
  "addMessage r text now1 now2 mgr =
     (let s = session mgr;
          s1 = s\<lparr>messages := messages s @ [\<lparr>role = r, content = text, timestamp = now1\<rparr>]\<rparr>;
          s2 = s1\<lparr>updated := now2\<rparr>
      in markDirty (mgr\<lparr>session := s2\<rparr>))"

definition maybeCompress :: "(string \<Rightarrow> string + string) \<Rightarrow> manager \<Rightarrow> bool \<times> manager" where
  "maybeCompress backend mgr =
     (let msgs = messages (session mgr);
          tokenEstimate = estimateMessagesTokens msgs
      in if tokenEstimate < CONTEXT_THRESHOLD then (False, mgr)
         else
           let splitIndex = nat (max 0 (int (length msgs) - int KEEP_RECENT_MESSAGES));
               toSummarize = take splitIndex msgs
           in if length toSummarize = 0 then (False, mgr)
              else
                let newSummary = summarize backend toSummarize;
                    s = session mgr;
                    s1 = (if truthy (summary s)
                          then s\<lparr>summary := Some (the (summary s) @ ''\<newline>\<newline>---\<newline>\<newline>'' @ newSummary)\<rparr>
                          else s\<lparr>summary := Some newSummary\<rparr>);
                    lastSummarized = last toSummarize;
                    s2 = s1\<lparr>summaryUpTo := timestamp lastSummarized\<rparr>;
                    s3 = s2\<lparr>messages := drop splitIndex msgs\<rparr>
                in (True, markDirty (mgr\<lparr>session := s3\<rparr>)))"

subsection \<open>Task list\<close>

definition addTodo :: "string \<Rightarrow> string \<Rightarrow> int \<Rightarrow> manager \<Rightarrow> task \<times> manager" where
  \<comment> \<open>\<open>uuid\<close> is the value of \<^verbatim>\<open>randomUUID()\<close>, \<open>now\<close> of \<^verbatim>\<open>Date.now()\<close>\<close>
  "addTodo text uuid now mgr =
     (let t = \<lparr>task_id = take 8 uuid, task_content = text, status = Pending, task_created = now\<rparr>;
          s = session mgr
      in (t, markDirty (mgr\<lparr>session := s\<lparr>todos := todos s @ [t]\<rparr>\<rparr>)))"

fun set_first_status :: "string \<Rightarrow> task_status \<Rightarrow> task list \<Rightarrow> task list" where
  "set_first_status i st [] = []"
| "set_first_status i st (t # ts) =
     (if task_id t = i then t\<lparr>status := st\<rparr> # ts else t # set_first_status i st ts)"

definition updateTodo :: "string \<Rightarrow> task_status \<Rightarrow> manager \<Rightarrow> bool \<times> manager" where
  "updateTodo i st mgr =
     (case find (\<lambda>t. task_id t = i) (todos (session mgr)) of
        Some t \<Rightarrow>
          (True, markDirty (mgr\<lparr>session := (session mgr)\<lparr>todos := set_first_status i st (todos (session mgr))\<rparr>\<rparr>))
      | None \<Rightarrow> (False, mgr))"

fun remove_first :: "string \<Rightarrow> task list \<Rightarrow> task list" where
  "remove_first i [] = []"
| "remove_first i (t # ts) = (if task_id t = i then ts else t # remove_first i ts)"

definition removeTodo :: "string \<Rightarrow> manager \<Rightarrow> bool \<times> manager" where
  "removeTodo i mgr =
     (if \<exists>t \<in> set (todos (session mgr)). task_id t = i
      then (True, markDirty (mgr\<lparr>session := (session mgr)\<lparr>todos := remove_first i (todos (session mgr))\<rparr>\<rparr>))
      else (False, mgr))"

definition clearCompletedTodos :: "manager \<Rightarrow> nat \<times> manager" where
  "clearCompletedTodos mgr =
     (let before = length (todos (session mgr));
          mgr1 = mgr\<lparr>session := (session mgr)\<lparr>todos := filter (\<lambda>t. status t \<noteq> Completed) (todos (session mgr))\<rparr>\<rparr>;
          removed = before - length (todos (session mgr1))
      in if removed > 0 then (removed, markDirty mgr1) else (removed, mgr1))"

subsection \<open>Sequences of operations\<close>

text \<open>
  The operations a caller can run on a manager between two archives, each with the values
  it reads from the clock and the identifier source. \<open>run_ops\<close> lists the states the
  manager goes through.
\<close>

datatype op =
    AddMessage role string int int
  | MaybeCompress
  | SetModel string
  | AddTodo string string int
  | UpdateTodo string task_status
  | RemoveTodo string
  | ClearCompletedTodos

fun apply_op :: "(string \<Rightarrow> string + string) \<Rightarrow> op \<Rightarrow> manager \<Rightarrow> manager" where
  "apply_op backend (AddMessage r text now1 now2) mgr = addMessage r text now1 now2 mgr"
| "apply_op backend MaybeCompress mgr = snd (maybeCompress backend mgr)"
| "apply_op backend (SetModel mdl) mgr = setModel mdl mgr"
| "apply_op backend (AddTodo text uuid now) mgr = snd (addTodo text uuid now mgr)"
| "apply_op backend (UpdateTodo i st) mgr = snd (updateTodo i st mgr)"
| "apply_op backend (RemoveTodo i) mgr = snd (removeTodo i mgr)"
| "apply_op backend ClearCompletedTodos mgr = snd (clearCompletedTodos mgr)"

fun run_ops :: "(string \<Rightarrow> string + string) \<Rightarrow> op list \<Rightarrow> manager \<Rightarrow> manager list" where
  "run_ops backend [] mgr = [mgr]"
| "run_ops backend (x # xs) mgr = mgr # run_ops backend xs (apply_op backend x mgr)"

fun clock_reads :: "op \<Rightarrow> int list" where
  "clock_reads (AddMessage r text now1 now2) = [now1, now2]"
| "clock_reads (AddTodo text uuid now) = [now]"
| "clock_reads x = []"

subsection \<open>Concrete sessions\<close>

definition big_message :: "int \<Rightarrow> message" where
  "big_message t = \<lparr>role = User, content = replicate 9000 (CHR ''a''), timestamp = t\<rparr>"

definition fresh_manager :: manager where
  "fresh_manager =
     \<lparr>session = createEmptySession ''6f1c2a9e-0000-4000-8000-000000000001'' 1000 1000
                  ''/home/u/proj'' ''qwen2.5-coder:32b-instruct'',
      dirty = False, saveTimeout = False\<rparr>"

definition big_manager :: manager where
  "big_manager = fresh_manager\<lparr>session := (session fresh_manager)\<lparr>messages :=
      map big_message [1001, 1002, 1003, 1004, 1005, 1006, 1007, 1008, 1009, 1010, 1011]\<rparr>\<rparr>"

definition fixed_backend :: "string \<Rightarrow> string + string" where
  "fixed_backend prompt = Inr ''digest''"

definition silent_backend :: "string \<Rightarrow> string + string" where
  "silent_backend prompt = Inr []"

definition failing_backend :: "string \<Rightarrow> string + string" where
  "failing_backend prompt = Inl ''Error: connect ECONNREFUSED 127.0.0.1:11434''"

definition growing_ops :: "op list" where
  "growing_ops =
     map (\<lambda>t. AddMessage User (replicate 9000 (CHR ''a'')) t t)
         [2001, 2002, 2003, 2004, 2005, 2006, 2007, 2008, 2009, 2010, 2011]
     @ [MaybeCompress]"

definition rollback_ops :: "op list" where
  \<comment> \<open>the clock is set back by half a second after the first message\<close>
  "rollback_ops =
     AddMessage User (replicate 9000 (CHR ''a'')) 2000 2000
     # map (\<lambda>t. AddMessage User (replicate 9000 (CHR ''a'')) t t)
           [1500, 1501, 1502, 1503, 1504, 1505, 1506, 1507, 1508, 1509]
     @ [MaybeCompress, AddMessage User (replicate 9000 (CHR ''a'')) 1510 1510, MaybeCompress]"

definition tool_note :: message where
  "tool_note = \<lparr>role = Tool, content = ''exit code 0'', timestamp = 3000\<rparr>"

definition demo_messages :: "message list" where
  "demo_messages =
     [\<lparr>role = User, content = ''see src/a.ts and ./b-c.json, then a.ts...'', timestamp = 3001\<rparr>,
      \<lparr>role = Assistant, content = ''I changed src/a.ts'', timestamp = 3002\<rparr>,
      tool_note]"

definition cutoffs :: "(string \<Rightarrow> string + string) \<Rightarrow> op list \<Rightarrow> manager \<Rightarrow> int list" where
  "cutoffs backend ops mgr = map (\<lambda>m. summaryUpTo (session m)) (run_ops backend ops mgr)"

section \<open>JSON values and \<^verbatim>\<open>JSON.parse\<close>\<close>

text \<open>
  \<^verbatim>\<open>JSON.parse\<close> belongs to the runtime. The extractor takes it as a parameter, so what is
  proved of the extractor holds for every parser. \<open>JSON_parse\<close> below is a parser of the
  JSON grammar used to run the extractor on concrete texts; it returns \<open>None\<close> where
  \<^verbatim>\<open>JSON.parse\<close> throws. Numbers and the contents of strings are kept as written.
\<close>

datatype json =
    JNull
  | JBool bool
  | JNum string
  | JStr string
  | JArr "json list"
  | JObj "(string \<times> json) list"

definition dquote :: char where
  "dquote = CHR 0x22"

definition backslash :: char where
  "backslash = CHR 0x5C"

definition json_ws :: "char \<Rightarrow> bool" where
  "json_ws c = (c = CHR 0x09 \<or> c = CHR 0x0A \<or> c = CHR 0x0D \<or> c = CHR 0x20)"

definition skip_ws :: "string \<Rightarrow> string" where
  "skip_ws s = dropWhile json_ws s"

definition is_digit :: "char \<Rightarrow> bool" where
  "is_digit c = (let n = (of_char c :: nat) in 48 \<le> n \<and> n \<le> 57)"

definition is_hex :: "char \<Rightarrow> bool" where
  "is_hex c = (let n = (of_char c :: nat) in
     (48 \<le> n \<and> n \<le> 57) \<or> (65 \<le> n \<and> n \<le> 70) \<or> (97 \<le> n \<and> n \<le> 102))"

definition hex_val :: "char \<Rightarrow> nat" where
  "hex_val c = (let n = (of_char c :: nat) in if n \<le> 57 then n - 48 else if n \<le> 70 then n - 55 else n - 87)"

definition unescape :: "char \<Rightarrow> char" where
  "unescape e =
     (if e = CHR ''b'' then CHR 0x08 else if e = CHR ''f'' then CHR 0x0C
      else if e = CHR ''n'' then CHR 0x0A else if e = CHR ''r'' then CHR 0x0D
      else if e = CHR ''t'' then CHR 0x09 else e)"

text \<open>
  The characters of a string literal after its opening quote, with the escapes decoded. An
  escape \<^verbatim>\<open>\uXXXX\<close> of a code unit above 255 has no \<open>char\<close> and is kept as written.
\<close>

function parse_chars :: "string \<Rightarrow> string \<Rightarrow> (string \<times> string) option" where
  "parse_chars acc [] = None"
| "parse_chars acc (c # cs) =
     (if c = dquote then Some (rev acc, cs)
      else if c = backslash then
        (case cs of
           [] \<Rightarrow> None
         | e # cs' \<Rightarrow>
             if e \<in> set [dquote, backslash, CHR ''/'', CHR ''b'', CHR ''f'', CHR ''n'', CHR ''r'', CHR ''t'']
             then parse_chars (unescape e # acc) cs'
             else if e = CHR ''u'' \<and> length cs' \<ge> 4 \<and> list_all is_hex (take 4 cs')
             then (let v = foldl (\<lambda>a h. 16 * a + hex_val h) 0 (take 4 cs')
                   in if v < 256 then parse_chars (char_of v # acc) (drop 4 cs')
                      else parse_chars (rev (take 4 cs') @ e # c # acc) (drop 4 cs'))
             else None)
      else if (of_char c :: nat) < 32 then None
      else parse_chars (c # acc) cs)"
  by pat_completeness auto
termination
  by (relation "measure (\<lambda>(acc, s). length s)") auto

definition parse_digits :: "string \<Rightarrow> (string \<times> string) option" where
  "parse_digits s = (if takeWhile is_digit s = [] then None else Some (takeWhile is_digit s, dropWhile is_digit s))"

definition parse_number :: "string \<Rightarrow> (string \<times> string) option" where
  "parse_number s =
     (let (sign, s1) = (case s of c # r \<Rightarrow> if c = CHR ''-'' then ([c], r) else ([], s) | [] \<Rightarrow> ([], s))
      in case parse_digits s1 of
           None \<Rightarrow> None
         | Some (ip, s2) \<Rightarrow>
             if length ip > 1 \<and> hd ip = CHR ''0'' then None
             else
               (case (case s2 of
                        c # r \<Rightarrow> if c = CHR ''.''
                                 then (case parse_digits r of None \<Rightarrow> None | Some (fp, s3) \<Rightarrow> Some (c # fp, s3))
                                 else Some ([], s2)
                      | [] \<Rightarrow> Some ([], s2)) of
                  None \<Rightarrow> None
                | Some (fp, s3) \<Rightarrow>
                    (case s3 of
                       c # r \<Rightarrow>
                         if c = CHR ''e'' \<or> c = CHR ''E''
                         then (let (es, r1) = (case r of d # r' \<Rightarrow> if d = CHR ''+'' \<or> d = CHR ''-'' then ([d], r') else ([], r) | [] \<Rightarrow> ([], r))
                               in case parse_digits r1 of
                                    None \<Rightarrow> None
                                  | Some (ex, s4) \<Rightarrow> Some (sign @ ip @ fp @ [c] @ es @ ex, s4))
                         else Some (sign @ ip @ fp, s3)
                     | [] \<Rightarrow> Some (sign @ ip @ fp, s3))))"

function parse_value :: "string \<Rightarrow> (json \<times> string) option"
  and parse_members :: "string \<Rightarrow> (string \<times> json) list \<Rightarrow> (json \<times> string) option"
  and parse_elements :: "string \<Rightarrow> json list \<Rightarrow> (json \<times> string) option" where
  "parse_value s =
     (case skip_ws s of
        [] \<Rightarrow> None
      | c # r \<Rightarrow>
          if c = CHR ''{'' then
            (case skip_ws r of
               [] \<Rightarrow> None
             | d # r' \<Rightarrow> if d = CHR ''}'' then Some (JObj [], r') else parse_members r [])
          else if c = CHR ''['' then
            (case skip_ws r of
               [] \<Rightarrow> None
             | d # r' \<Rightarrow> if d = CHR '']'' then Some (JArr [], r') else parse_elements r [])
          else if c = dquote then
            (case parse_chars [] r of None \<Rightarrow> None | Some (t, r') \<Rightarrow> Some (JStr t, r'))
          else if take 4 (c # r) = ''true'' then Some (JBool True, drop 4 (c # r))
          else if take 5 (c # r) = ''false'' then Some (JBool False, drop 5 (c # r))
          else if take 4 (c # r) = ''null'' then Some (JNull, drop 4 (c # r))
          else (case parse_number (c # r) of None \<Rightarrow> None | Some (n, r') \<Rightarrow> Some (JNum n, r')))"
| "parse_members s acc =
     (case skip_ws s of
        [] \<Rightarrow> None
      | c # r \<Rightarrow>
          if c \<noteq> dquote then None
          else
            (case parse_chars [] r of
               None \<Rightarrow> None
             | Some (k, r1) \<Rightarrow>
                 (case skip_ws r1 of
                    [] \<Rightarrow> None
                  | d # r2 \<Rightarrow>
                      if d \<noteq> CHR '':'' \<or> \<not> length r2 < length s then None
                      else
                        (case parse_value r2 of
                           None \<Rightarrow> None
                         | Some (v, r3) \<Rightarrow>
                             (case skip_ws r3 of
                                [] \<Rightarrow> None
                              | e # r4 \<Rightarrow>
                                  if e = CHR ''}'' then Some (JObj (acc @ [(k, v)]), r4)
                                  else if e = CHR '','' \<and> length r4 < length s
                                  then parse_members r4 (acc @ [(k, v)])
                                  else None)))))"
| "parse_elements s acc =
     (case parse_value s of
        None \<Rightarrow> None
      | Some (v, r3) \<Rightarrow>
          (case skip_ws r3 of
             [] \<Rightarrow> None
           | e # r4 \<Rightarrow>
               if e = CHR '']'' then Some (JArr (acc @ [v]), r4)
               else if e = CHR '','' \<and> length r4 < length s
               then parse_elements r4 (acc @ [v])
               else None))"
  by pat_completeness auto
termination
proof (relation "measure (\<lambda>x. case x of Inl s \<Rightarrow> 2 * length s | Inr (Inl (s, acc)) \<Rightarrow> 2 * length s + 1 | Inr (Inr (s, acc)) \<Rightarrow> 2 * length s + 1)", goal_cases)
  case 1
  then show ?case by simp
next
  case (2 s c r d r')
  have "length (skip_ws s) \<le> length s" by (simp add: skip_ws_def length_dropWhile_le)
  with 2 show ?case by simp
next
  case (3 s c r d r')
  have "length (skip_ws s) \<le> length s" by (simp add: skip_ws_def length_dropWhile_le)
  with 3 show ?case by simp
next
  case (4 s acc c r x k r1 d r2)
  then show ?case by simp
next
  case (5 s acc c r x k r1 d r2 x2 v r3 e r4)
  then show ?case by simp
next
  case (6 s acc)
  then show ?case by simp
next
  case (7 s acc x v r3 e r4)
  then show ?case by simp
qed

definition JSON_parse :: "string \<Rightarrow> json option" where
  "JSON_parse s =
     (case parse_value s of
        None \<Rightarrow> None
      | Some (v, r) \<Rightarrow> if skip_ws r = [] then Some v else None)"

section \<open>Capability registry (src/tools/index.ts)\<close>

text \<open>
  The registry is the list \<^verbatim>\<open>allTools\<close>; of each capability the orchestrator uses its
  name and its \<^verbatim>\<open>execute\<close> function. The implementations are outside the core and enter
  as a parameter of the orchestrator.
\<close>

datatype tool = lsTool | readTool | writeTool | editTool | bashTool | globTool | grepTool | todoTool

fun tool_name :: "tool \<Rightarrow> string" where
  "tool_name lsTool = ''ls''"
| "tool_name readTool = ''read_file''"
| "tool_name writeTool = ''write_file''"
| "tool_name editTool = ''edit_file''"
| "tool_name bashTool = ''bash''"
| "tool_name globTool = ''glob''"
| "tool_name grepTool = ''grep''"
| "tool_name todoTool = ''todo''"

definition allTools :: "tool list" where
  "allTools = [lsTool, readTool, writeTool, editTool, bashTool, globTool, grepTool, todoTool]"

definition getToolByName :: "string \<Rightarrow> tool option" where
  "getToolByName n = find (\<lambda>t. tool_name t = n) allTools"

section \<open>Tool-call extractor (src/ollama.ts, parseToolCalls)\<close>

record toolcall =
  name :: string
  arguments :: json

definition sp :: rx where
  \<comment> \<open>\<^verbatim>\<open>\s*\<close>\<close>
  "sp = Star (Cls is_space)"

definition not_brace :: "char \<Rightarrow> bool" where
  "not_brace c = (c \<noteq> CHR ''{'' \<and> c \<noteq> CHR ''}'')"

definition jsonPattern :: rx where
  "jsonPattern =
     Seqs [Chr CHR ''{'', sp, Lit (dquote # ''name'' @ [dquote]), sp, Chr CHR '':'', sp,
           Chr dquote, Grp 1 (Plus (Cls (\<lambda>c. c \<noteq> dquote))), Chr dquote, sp, Chr CHR '','', sp,
           Lit (dquote # ''arguments'' @ [dquote]), sp, Chr CHR '':'', sp,
           Grp 2 (Seqs [Chr CHR ''{'', Star (Cls not_brace),
                        Star (Seqs [Chr CHR ''{'', Star (Cls not_brace), Chr CHR ''}'', Star (Cls not_brace)]),
                        Chr CHR ''}'']),
           sp, Chr CHR ''}'']"

definition funcNames :: "string list" where
  "funcNames = [''bash'', ''read_file'', ''write_file'', ''glob'', ''grep'', ''todo'']"

definition funcPattern :: rx where
  "funcPattern =
     Seqs [WordB, Grp 1 (Alts (map Lit funcNames)), sp, Chr CHR ''('', sp,
           Grp 2 (Seqs [Chr CHR ''{'', Plus (Cls (\<lambda>c. c \<noteq> CHR '')'')), Chr CHR ''}'']),
           sp, Chr CHR '')'']"

text \<open>
  One call of \<^verbatim>\<open>exec\<close> on a global expression: the first position at or after the cursor
  where the expression matches. The result is the text that remained at the start of the
  match, the cursor after the match and the captures.
\<close>

fun find_from :: "rx \<Rightarrow> char option \<Rightarrow> string \<Rightarrow> (string \<times> cursor \<times> caps) option" where
  "find_from r p [] =
     (case rx_match r (p, []) [] of [] \<Rightarrow> None | (cur, c) # _ \<Rightarrow> Some ([], cur, c))"
| "find_from r p (x # xs) =
     (case rx_match r (p, x # xs) [] of
        [] \<Rightarrow> find_from r (Some x) xs
      | (cur, c) # _ \<Rightarrow> Some (x # xs, cur, c))"

text \<open>
  The loop \<^verbatim>\<open>while ((match = pattern.exec(text)) !== null)\<close>: each call searches from
  \<^verbatim>\<open>lastIndex\<close>, the end of the last match, and the loop ends when a call finds nothing.
  \<open>n\<close> is the length of the whole text, so \<open>n - length s0\<close> is \<^verbatim>\<open>match.index\<close>. A match
  that leaves \<^verbatim>\<open>lastIndex\<close> where it was would be found again forever: the loop does not
  return, which is the value \<open>None\<close>.
\<close>

function exec_loop :: "rx \<Rightarrow> nat \<Rightarrow> char option \<Rightarrow> string \<Rightarrow> (nat \<times> caps) list option" where
  "exec_loop r n p s =
     (case find_from r p s of
        None \<Rightarrow> Some []
      | Some (s0, (p', s'), c) \<Rightarrow>
          if length s' < length s
          then (case exec_loop r n p' s' of None \<Rightarrow> None | Some ms \<Rightarrow> Some ((n - length s0, c) # ms))
          else None)"
  by pat_completeness auto
termination
  by (relation "measure (\<lambda>(r, n, p, s). length s)") auto

declare exec_loop.simps [simp del]

definition exec_all :: "rx \<Rightarrow> string \<Rightarrow> (nat \<times> caps) list option" where
  "exec_all r text = exec_loop r (length text) None text"

text \<open>
  The body of the first loop: the \<^verbatim>\<open>try\<close> block reads the name, parses the payload, which
  may throw, and keeps the call when the name is registered. \<open>parse\<close> is \<^verbatim>\<open>JSON.parse\<close>, with
  \<open>None\<close> for a thrown \<^verbatim>\<open>SyntaxError\<close>. Each call is paired with \<^verbatim>\<open>match.index\<close>.
\<close>

definition json_call :: "(string \<Rightarrow> json option) \<Rightarrow> nat \<times> caps \<Rightarrow> (nat \<times> toolcall) list" where
  "json_call parse m =
     (case (map_of (snd m) 1, map_of (snd m) 2) of
        (Some nm, Some payload) \<Rightarrow>
          (case parse payload of
             None \<Rightarrow> []
           | Some args \<Rightarrow>
               if getToolByName nm \<noteq> None then [(fst m, \<lparr>name = nm, arguments = args\<rparr>)] else [])
      | _ \<Rightarrow> [])"

definition func_call :: "(string \<Rightarrow> json option) \<Rightarrow> nat \<times> caps \<Rightarrow> (nat \<times> toolcall) list" where
  "func_call parse m =
     (case (map_of (snd m) 1, map_of (snd m) 2) of
        (Some nm, Some payload) \<Rightarrow>
          (case parse payload of
             None \<Rightarrow> []
           | Some args \<Rightarrow> [(fst m, \<lparr>name = nm, arguments = args\<rparr>)])
      | _ \<Rightarrow> [])"

definition parseToolCallsAt :: "(string \<Rightarrow> json option) \<Rightarrow> string \<Rightarrow> (nat \<times> toolcall) list option" where
  "parseToolCallsAt parse text =
     (case exec_all jsonPattern text of
        None \<Rightarrow> None
      | Some ms \<Rightarrow>
          let calls = concat (map (json_call parse) ms)
          in if length calls = 0
             then (case exec_all funcPattern text of
                     None \<Rightarrow> None
                   | Some ms' \<Rightarrow> Some (concat (map (func_call parse) ms')))
             else Some calls)"

definition parseToolCalls :: "(string \<Rightarrow> json option) \<Rightarrow> string \<Rightarrow> toolcall list option" where
  "parseToolCalls parse text = map_option (map snd) (parseToolCallsAt parse text)"

subsection \<open>Concrete model outputs\<close>



definition func_text :: string where
  \<open>func_text = ''I will run bash({"command": "ls"}) now''\<close>

definition nested_text :: string where
  \<open>nested_text = ''{"name":"todo","arguments":{"action":"add","meta":{"a":1},"content":"fix bug"}}''\<close>

subsection \<open>Measures of an expression used in the proofs\<close>

text \<open>
  \<open>min_len r\<close> is a number of code units every match of \<open>r\<close> consumes at least;
  \<open>grp_free r\<close> says that \<open>r\<close> has no capture group.
\<close>

fun min_len :: "rx \<Rightarrow> nat" where
  "min_len (Cls P) = 1"
| "min_len (Seq r1 r2) = min_len r1 + min_len r2"
| "min_len (Alt r1 r2) = min (min_len r1) (min_len r2)"
| "min_len (Star r) = 0"
| "min_len (Grp k r) = min_len r"
| "min_len WordB = 0"

fun grp_free :: "rx \<Rightarrow> bool" where
  "grp_free (Cls P) = True"
| "grp_free (Seq r1 r2) = (grp_free r1 \<and> grp_free r2)"
| "grp_free (Alt r1 r2) = (grp_free r1 \<and> grp_free r2)"
| "grp_free (Star r) = grp_free r"
| "grp_free (Grp k r) = False"
| "grp_free WordB = True"

section \<open>Conversation orchestrator (src/ollama.ts, chat)\<close>

record chatmsg =
  chat_role :: role
  chat_content :: string

datatype event = Token string | ToolCallObserved string json | ToolResultObserved string string

text \<open>
  What the orchestrator reaches outside itself. \<open>'w\<close> is the state of the world: the
  backend, the file system, the session behind the tool context. \<open>llm\<close> is the streamed
  request: the contents of the chunks received and, when the request or the stream throws,
  the error. \<open>execute\<close> runs a capability: \<open>Inr\<close> the text it returns, \<open>Inl\<close> the rendering
  of what it throws. \<open>toolDesc\<close> is the description of the registry that is put into the
  system prompt. The callbacks are recorded as events.
\<close>

record 'w runtime =
  llm :: "chatmsg list \<Rightarrow> 'w \<Rightarrow> (string list \<times> string option) \<times> 'w"
  execute :: "tool \<Rightarrow> json \<Rightarrow> 'w \<Rightarrow> (string + string) \<times> 'w"
  parse_json :: "string \<Rightarrow> json option"
  toolDesc :: string

record 'w chat_state =
  chat_messages :: "chatmsg list"
  world :: 'w
  events :: "event list"

definition tool_instructions :: "string \<Rightarrow> string" where
  \<open>tool_instructions desc =
     ''\<newline>\<newline>## TOOL CALLING\<newline>\<newline>'' @
     ''When you need to use a tool, output ONLY a JSON object in this exact format (no markdown, no explanation before it):\<newline>'' @
     ''{"name": "tool_name", "arguments": {"param": "value"}}\<newline>\<newline>'' @
     ''Available tools:\<newline>'' @ desc @
     ''\<newline>\<newline>After I execute the tool, I will give you the result and you can continue.''\<close>

fun inject :: "string \<Rightarrow> chatmsg list \<Rightarrow> chatmsg list" where
  "inject desc [] = []"
| "inject desc (m # ms) =
     (if chat_role m = System \<and> \<not> sublist ''TOOL CALLING'' (chat_content m)
      then m\<lparr>chat_content := chat_content m @ tool_instructions desc\<rparr>
      else m) # ms"

definition call_result :: "'w runtime \<Rightarrow> toolcall \<Rightarrow> 'w \<Rightarrow> string \<times> 'w" where
  "call_result env tc w =
     (case getToolByName (name tc) of
        Some t \<Rightarrow>
          (case execute env t (arguments tc) w of
             (Inr r, w') \<Rightarrow> (r, w')
           | (Inl e, w') \<Rightarrow> (''Error executing '' @ name tc @ '': '' @ e, w'))
      | None \<Rightarrow> (''Unknown tool: '' @ name tc, w))"

definition run_tool_call :: "'w runtime \<Rightarrow> 'w chat_state \<Rightarrow> toolcall \<Rightarrow> 'w chat_state" where
  "run_tool_call env st tc =
     (let st1 = st\<lparr>events := events st @ [ToolCallObserved (name tc) (arguments tc)]\<rparr>;
          (result, w') = call_result env tc (world st1);
          st2 = st1\<lparr>world := w', events := events st1 @ [ToolResultObserved (name tc) result]\<rparr>
      in st2\<lparr>chat_messages := chat_messages st2 @
           [\<lparr>chat_role = User, chat_content = ''Tool result for '' @ name tc @ '':\<newline>'' @ result\<rparr>]\<rparr>)"

definition run_tool_calls :: "'w runtime \<Rightarrow> toolcall list \<Rightarrow> 'w chat_state \<Rightarrow> 'w chat_state" where
  "run_tool_calls env calls st = foldl (run_tool_call env) st calls"

datatype 'w step = Final string "'w chat_state" | Threw string "'w chat_state" | Again "'w chat_state" | Hang

definition chat_round :: "'w runtime \<Rightarrow> 'w chat_state \<Rightarrow> 'w step" where
  "chat_round env st =
     (let messagesWithTools = inject (toolDesc env) (chat_messages st);
          ((chunks, err), w1) = llm env messagesWithTools (world st);
          tokens = filter (\<lambda>t. t \<noteq> []) chunks;
          st1 = st\<lparr>world := w1, events := events st @ map Token tokens\<rparr>;
          fullResponse = concat tokens
      in case err of
           Some e \<Rightarrow> Threw e st1
         | None \<Rightarrow>
             (case parseToolCalls (parse_json env) fullResponse of
                None \<Rightarrow> Hang
              | Some toolCalls \<Rightarrow>
                  if length toolCalls > 0
                  then Again (run_tool_calls env toolCalls
                         (st1\<lparr>chat_messages := chat_messages st1 @
                               [\<lparr>chat_role = Assistant, chat_content = fullResponse\<rparr>]\<rparr>))
                  else Final fullResponse st1))"

partial_function (option) chat :: "'w runtime \<Rightarrow> 'w chat_state \<Rightarrow> ((string + string) \<times> 'w chat_state) option" where
  "chat env st =
     (case chat_round env st of
        Final answer st' \<Rightarrow> Some (Inr answer, st')
      | Threw e st' \<Rightarrow> Some (Inl e, st')
      | Again st' \<Rightarrow> chat env st'
      | Hang \<Rightarrow> None)"


definition demo_runtime :: "nat runtime" where
  \<open>demo_runtime =
     \<lparr>llm = (\<lambda>msgs w. if w = 0
                       then (([''I will look. '', [], ''{"name": "bash", "arguments": {"command": "ls"}}''], None), Suc w)
                       else (([''The directory could not be listed.''], None), Suc w)),
      execute = (\<lambda>t args w. (Inl ''Error: spawn sh ENOENT'', w)),
      parse_json = JSON_parse,
      toolDesc = ''bash: Execute a shell command''\<rparr>\<close>

definition demo_state :: "nat chat_state" where
  "demo_state = \<lparr>chat_messages = [\<lparr>chat_role = System, chat_content = ''You are Spot.''\<rparr>,
                                   \<lparr>chat_role = User, chat_content = ''list the files''\<rparr>],
                 world = 0, events = []\<rparr>"

subsection \<open>Concrete runtimes\<close>






definition bash_call :: "string \<Rightarrow> toolcall" where
  "bash_call cmd = \<lparr>name = ''bash'', arguments = JObj [(''command'', JStr cmd)]\<rparr>"



section \<open>Persistence adapter (src/session/storage.ts)\<close>

text \<open>
  The file system is a store of files (path and content, one entry per path), a list of
  directories, and the set of paths at which a change is refused, which is how a failing
  \<^verbatim>\<open>mkdir\<close>, write or \<^verbatim>\<open>rm\<close> enters the model. \<^verbatim>\<open>Bun.file(p).exists()\<close> holds of a
  regular file only: of a directory it is false. The listing
  \<^verbatim>\<open>ls -1 dir/*.json\<close> is taken as the list of the paths it prints, one per line, which is
  what the source recovers from the printed text when no path holds a line break.
\<close>

record fs =
  files :: "(string \<times> string) list"
  dirs :: "string list"
  denied :: "string \<Rightarrow> bool"

datatype io_error = MkdirFailed | WriteFailed | RmFailed

definition fs_exists :: "fs \<Rightarrow> string \<Rightarrow> bool" where
  "fs_exists f p = (p \<in> set (map fst (files f)))"

definition fs_read :: "fs \<Rightarrow> string \<Rightarrow> string option" where
  "fs_read f p = map_of (files f) p"

definition mkdir_p :: "fs \<Rightarrow> string \<Rightarrow> fs option" where
  "mkdir_p f d = (if denied f d then None else Some (f\<lparr>dirs := List.insert d (dirs f)\<rparr>))"

definition fs_write :: "fs \<Rightarrow> string \<Rightarrow> string \<Rightarrow> fs option" where
  "fs_write f p d =
     (if denied f p then None
      else Some (f\<lparr>files := (p, d) # filter (\<lambda>e. fst e \<noteq> p) (files f)\<rparr>))"

definition fs_rm :: "fs \<Rightarrow> string \<Rightarrow> fs option" where
  "fs_rm f p =
     (if denied f p then None else Some (f\<lparr>files := filter (\<lambda>e. fst e \<noteq> p) (files f)\<rparr>))"

definition in_dir_json :: "string \<Rightarrow> string \<Rightarrow> bool" where
  \<comment> \<open>the glob \<^verbatim>\<open>dir/*.json\<close>: a name in \<open>dir\<close> that ends in \<^verbatim>\<open>.json\<close> and is not hidden\<close>
  "in_dir_json d p =
     (prefix (d @ ''/'') p \<and>
      (let nm = drop (length d + 1) p
       in CHR ''/'' \<notin> set nm \<and> suffix ''.json'' nm \<and> nm \<noteq> [] \<and> hd nm \<noteq> CHR ''.''))"

definition ls_json :: "fs \<Rightarrow> string \<Rightarrow> string list" where
  "ls_json f d = filter (in_dir_json d) (map fst (files f))"

text \<open>
  What the adapter takes from the runtime: the hex digest of SHA-256, and
  \<^verbatim>\<open>JSON.stringify\<close> and \<^verbatim>\<open>JSON.parse\<close> at the type of sessions, \<open>None\<close> where the parse
  throws. A parsed value that is not shaped like a session has no place in the typed model.
\<close>

record runtime_io =
  sha256_hex :: "string \<Rightarrow> string"
  JSON_stringify :: "session \<Rightarrow> string"
  JSON_parse_session :: "string \<Rightarrow> session option"

record SessionMetadata =
  md_id :: string
  md_projectRoot :: string
  md_model :: string
  messageCount :: nat
  md_created :: int
  md_updated :: int

definition hashPath :: "runtime_io \<Rightarrow> string \<Rightarrow> string" where
  "hashPath rt root =
     (let hash = take 12 (sha256_hex rt root);
          lastPart = rev (takeWhile (\<lambda>c. c \<noteq> CHR ''/'') (rev root));
          safeName = (if lastPart = [] then ''default'' else lastPart)
      in safeName @ ''-'' @ hash)"

definition getSessionDir :: "runtime_io \<Rightarrow> string \<Rightarrow> string \<Rightarrow> string" where
  "getSessionDir rt sessionsDir root = sessionsDir @ ''/'' @ hashPath rt root"

definition getCurrentPath :: "runtime_io \<Rightarrow> string \<Rightarrow> string \<Rightarrow> string" where
  "getCurrentPath rt sessionsDir root = getSessionDir rt sessionsDir root @ ''/current.json''"

definition getArchiveDir :: "runtime_io \<Rightarrow> string \<Rightarrow> string \<Rightarrow> string" where
  "getArchiveDir rt sessionsDir root = getSessionDir rt sessionsDir root @ ''/archive''"

definition storage_save :: "runtime_io \<Rightarrow> string \<Rightarrow> session \<Rightarrow> fs \<Rightarrow> (io_error + unit) \<times> fs" where
  "storage_save rt sessionsDir s f =
     (let dir = getSessionDir rt sessionsDir (projectRoot s);
          path = getCurrentPath rt sessionsDir (projectRoot s)
      in case mkdir_p f dir of
           None \<Rightarrow> (Inl MkdirFailed, f)
         | Some f1 \<Rightarrow>
             (case fs_write f1 path (JSON_stringify rt s) of
                None \<Rightarrow> (Inl WriteFailed, f1)
              | Some f2 \<Rightarrow> (Inr (), f2)))"

definition storage_load :: "runtime_io \<Rightarrow> string \<Rightarrow> string \<Rightarrow> fs \<Rightarrow> session option" where
  "storage_load rt sessionsDir root f =
     (let path = getCurrentPath rt sessionsDir root
      in if fs_exists f path
         then (case fs_read f path of
                 None \<Rightarrow> None
               | Some body \<Rightarrow> JSON_parse_session rt body)
         else None)"

definition archive_stamp :: "string \<Rightarrow> string" where
  \<comment> \<open>\<^verbatim>\<open>toISOString().replace(/[:.]/g, '-')\<close>\<close>
  "archive_stamp isoTime = map (\<lambda>c. if c = CHR '':'' \<or> c = CHR ''.'' then CHR ''-'' else c) isoTime"

definition storage_archive ::
  "runtime_io \<Rightarrow> string \<Rightarrow> session \<Rightarrow> string \<Rightarrow> fs \<Rightarrow> (io_error + string) \<times> fs" where
  \<comment> \<open>\<open>isoTime\<close> is the value of \<^verbatim>\<open>new Date().toISOString()\<close>\<close>
  "storage_archive rt sessionsDir s isoTime f =
     (let archiveDir = getArchiveDir rt sessionsDir (projectRoot s)
      in case mkdir_p f archiveDir of
           None \<Rightarrow> (Inl MkdirFailed, f)
         | Some f1 \<Rightarrow>
             (let archivePath = archiveDir @ ''/'' @ archive_stamp isoTime @ ''.json''
              in case fs_write f1 archivePath (JSON_stringify rt s) of
                   None \<Rightarrow> (Inl WriteFailed, f1)
                 | Some f2 \<Rightarrow>
                     (let currentPath = getCurrentPath rt sessionsDir (projectRoot s)
                      in if fs_exists f2 currentPath
                         then (case fs_rm f2 currentPath of
                                 None \<Rightarrow> (Inl RmFailed, f2)
                               | Some f3 \<Rightarrow> (Inr archivePath, f3))
                         else (Inr archivePath, f2))))"

definition metadata_of :: "session \<Rightarrow> SessionMetadata" where
  "metadata_of s =
     \<lparr>md_id = session_id s, md_projectRoot = projectRoot s, md_model = model s,
      messageCount = length (messages s), md_created = created s, md_updated = updated s\<rparr>"

definition archived_entry :: "runtime_io \<Rightarrow> fs \<Rightarrow> string \<Rightarrow> SessionMetadata list" where
  \<comment> \<open>the body of the loop over the listed files: a file that cannot be read or parsed is skipped\<close>
  "archived_entry rt f file =
     (case fs_read f file of
        None \<Rightarrow> []
      | Some body \<Rightarrow>
          (case JSON_parse_session rt body of
             None \<Rightarrow> []
           | Some s \<Rightarrow> [metadata_of s]))"

definition listArchived :: "runtime_io \<Rightarrow> string \<Rightarrow> string \<Rightarrow> fs \<Rightarrow> SessionMetadata list" where
  "listArchived rt sessionsDir root f =
     (let archiveDir = getArchiveDir rt sessionsDir root
      in if \<not> fs_exists f archiveDir then []
         else sort_key (\<lambda>e. - md_updated e) (concat (map (archived_entry rt f) (ls_json f archiveDir))))"

subsection \<open>The manager's save and archive (src/session/index.ts)\<close>

definition manager_save ::
  "runtime_io \<Rightarrow> string \<Rightarrow> manager \<Rightarrow> fs \<Rightarrow> (io_error + unit) \<times> manager \<times> fs" where
  "manager_save rt sessionsDir mgr f =
     (let mgr1 = mgr\<lparr>saveTimeout := False\<rparr>
      in case storage_save rt sessionsDir (session mgr1) f of
           (Inl e, f') \<Rightarrow> (Inl e, mgr1, f')
         | (Inr u, f') \<Rightarrow> (Inr (), mgr1\<lparr>dirty := False\<rparr>, f'))"

definition manager_archive ::
  "runtime_io \<Rightarrow> string \<Rightarrow> string \<Rightarrow> string \<Rightarrow> int \<Rightarrow> int \<Rightarrow> manager \<Rightarrow> fs
     \<Rightarrow> (io_error + string) \<times> manager \<times> fs" where
  "manager_archive rt sessionsDir isoTime uuid now1 now2 mgr f =
     (case manager_save rt sessionsDir mgr f of
        (Inl e, mgr1, f1) \<Rightarrow> (Inl e, mgr1, f1)
      | (Inr u, mgr1, f1) \<Rightarrow>
          (case storage_archive rt sessionsDir (session mgr1) isoTime f1 of
             (Inl e, f2) \<Rightarrow> (Inl e, mgr1, f2)
           | (Inr archivePath, f2) \<Rightarrow>
               (Inr archivePath,
                mgr1\<lparr>session := createEmptySession uuid now1 now2
                                  (projectRoot (session mgr1)) (model (session mgr1))\<rparr>,
                f2)))"

subsection \<open>A concrete runtime for the adapter\<close>

text \<open>
  A printer of sessions in the layout of \<^verbatim>\<open>JSON.stringify(session, null, 2)\<close> and a reader
  built on \<open>JSON_parse\<close>, used to run the adapter on concrete sessions.
\<close>

definition hex_digit :: "nat \<Rightarrow> char" where
  "hex_digit d = (if d < 10 then char_of (48 + d) else char_of (87 + d))"

definition escape_char :: "char \<Rightarrow> string" where
  "escape_char c =
     (if c = dquote then [backslash, dquote]
      else if c = backslash then [backslash, backslash]
      else if c = CHR 0x08 then [backslash, CHR ''b'']
      else if c = CHR 0x0C then [backslash, CHR ''f'']
      else if c = CHR 0x0A then [backslash, CHR ''n'']
      else if c = CHR 0x0D then [backslash, CHR ''r'']
      else if c = CHR 0x09 then [backslash, CHR ''t'']
      else if (of_char c :: nat) < 32
      then [backslash, CHR ''u'', CHR ''0'', CHR ''0'', hex_digit (of_char c div 16), hex_digit (of_char c mod 16)]
      else [c])"

definition quote :: "string \<Rightarrow> string" where
  "quote s = dquote # concat (map escape_char s) @ [dquote]"

function show_pos :: "int \<Rightarrow> string" where
  "show_pos i = (if i < 10 then [digit_char (nat i)] else show_pos (i div 10) @ [digit_char (nat (i mod 10))])"
  by pat_completeness auto
termination
  by (relation "measure nat") auto

declare show_pos.simps [simp del]

definition show_int :: "int \<Rightarrow> string" where
  "show_int i = (if i < 0 then CHR ''-'' # show_pos (- i) else show_pos i)"

definition pad :: "nat \<Rightarrow> string" where
  "pad n = replicate n (CHR '' '')"

fun json_print :: "nat \<Rightarrow> json \<Rightarrow> string" where
  "json_print n JNull = ''null''"
| "json_print n (JBool b) = (if b then ''true'' else ''false'')"
| "json_print n (JNum x) = x"
| "json_print n (JStr s) = quote s"
| "json_print n (JArr xs) =
     (if xs = [] then ''[]''
      else ''['' @ [CHR 0x0A] @ join ('','' @ [CHR 0x0A]) (map (\<lambda>x. pad (n + 2) @ json_print (n + 2) x) xs)
           @ [CHR 0x0A] @ pad n @ '']'')"
| "json_print n (JObj kvs) =
     (if kvs = [] then ''{}''
      else ''{'' @ [CHR 0x0A]
           @ join ('','' @ [CHR 0x0A]) (map (\<lambda>kv. pad (n + 2) @ quote (fst kv) @ '': '' @ json_print (n + 2) (snd kv)) kvs)
           @ [CHR 0x0A] @ pad n @ ''}'')"

definition role_text :: "role \<Rightarrow> string" where
  "role_text r = (case r of System \<Rightarrow> ''system'' | User \<Rightarrow> ''user'' | Assistant \<Rightarrow> ''assistant'' | Tool \<Rightarrow> ''tool'')"

definition status_text :: "task_status \<Rightarrow> string" where
  "status_text st = (case st of Pending \<Rightarrow> ''pending'' | InProgress \<Rightarrow> ''in_progress'' | Completed \<Rightarrow> ''completed'')"

definition json_of_message :: "message \<Rightarrow> json" where
  "json_of_message m =
     JObj [(''role'', JStr (role_text (role m))), (''content'', JStr (content m)),
           (''timestamp'', JNum (show_int (timestamp m)))]"

definition json_of_task :: "task \<Rightarrow> json" where
  "json_of_task t =
     JObj [(''id'', JStr (task_id t)), (''content'', JStr (task_content t)),
           (''status'', JStr (status_text (status t))), (''created'', JNum (show_int (task_created t)))]"

definition json_of_session :: "session \<Rightarrow> json" where
  "json_of_session s =
     JObj [(''id'', JStr (session_id s)), (''projectRoot'', JStr (projectRoot s)),
           (''model'', JStr (model s)),
           (''messages'', JArr (map json_of_message (messages s))),
           (''summary'', (case summary s of None \<Rightarrow> JNull | Some t \<Rightarrow> JStr t)),
           (''summaryUpTo'', JNum (show_int (summaryUpTo s))),
           (''todos'', JArr (map json_of_task (todos s))),
           (''created'', JNum (show_int (created s))), (''updated'', JNum (show_int (updated s)))]"

definition read_digits :: "string \<Rightarrow> int option" where
  "read_digits ds =
     (if ds \<noteq> [] \<and> list_all is_digit ds
      then Some (foldl (\<lambda>a c. 10 * a + (of_char c - 48)) 0 ds) else None)"

definition read_int :: "string \<Rightarrow> int option" where
  "read_int x =
     (case x of
        [] \<Rightarrow> None
      | c # r \<Rightarrow> if c = CHR ''-'' then map_option uminus (read_digits r) else read_digits x)"

definition get_str :: "(string \<times> json) list \<Rightarrow> string \<Rightarrow> string option" where
  "get_str kvs k = (case map_of kvs k of Some (JStr v) \<Rightarrow> Some v | _ \<Rightarrow> None)"

definition get_int :: "(string \<times> json) list \<Rightarrow> string \<Rightarrow> int option" where
  "get_int kvs k = (case map_of kvs k of Some (JNum v) \<Rightarrow> read_int v | _ \<Rightarrow> None)"

definition get_arr :: "(string \<times> json) list \<Rightarrow> string \<Rightarrow> json list option" where
  "get_arr kvs k = (case map_of kvs k of Some (JArr v) \<Rightarrow> Some v | _ \<Rightarrow> None)"

definition read_role :: "string \<Rightarrow> role option" where
  "read_role x =
     (if x = ''system'' then Some System else if x = ''user'' then Some User
      else if x = ''assistant'' then Some Assistant else if x = ''tool'' then Some Tool else None)"

definition read_status :: "string \<Rightarrow> task_status option" where
  "read_status x =
     (if x = ''pending'' then Some Pending else if x = ''in_progress'' then Some InProgress
      else if x = ''completed'' then Some Completed else None)"

definition message_of_json :: "json \<Rightarrow> message option" where
  "message_of_json j =
     (case j of
        JObj kvs \<Rightarrow>
          Option.bind (Option.bind (get_str kvs ''role'') read_role) (\<lambda>r.
          Option.bind (get_str kvs ''content'') (\<lambda>c.
          Option.bind (get_int kvs ''timestamp'') (\<lambda>t.
          Some \<lparr>role = r, content = c, timestamp = t\<rparr>)))
      | _ \<Rightarrow> None)"

definition task_of_json :: "json \<Rightarrow> task option" where
  "task_of_json j =
     (case j of
        JObj kvs \<Rightarrow>
          Option.bind (get_str kvs ''id'') (\<lambda>i.
          Option.bind (get_str kvs ''content'') (\<lambda>c.
          Option.bind (Option.bind (get_str kvs ''status'') read_status) (\<lambda>st.
          Option.bind (get_int kvs ''created'') (\<lambda>t.
          Some \<lparr>task_id = i, task_content = c, status = st, task_created = t\<rparr>))))
      | _ \<Rightarrow> None)"

fun all_some :: "'a option list \<Rightarrow> 'a list option" where
  "all_some [] = Some []"
| "all_some (None # xs) = None"
| "all_some (Some x # xs) = map_option ((#) x) (all_some xs)"

definition get_summary :: "(string \<times> json) list \<Rightarrow> string option option" where
  "get_summary kvs =
     (case map_of kvs ''summary'' of
        Some JNull \<Rightarrow> Some None
      | Some (JStr t) \<Rightarrow> Some (Some t)
      | _ \<Rightarrow> None)"

definition session_of_json :: "json \<Rightarrow> session option" where
  "session_of_json j =
     (case j of
        JObj kvs \<Rightarrow>
          Option.bind (get_str kvs ''id'') (\<lambda>i.
          Option.bind (get_str kvs ''projectRoot'') (\<lambda>root.
          Option.bind (get_str kvs ''model'') (\<lambda>mdl.
          Option.bind (Option.bind (get_arr kvs ''messages'') (\<lambda>xs. all_some (map message_of_json xs))) (\<lambda>msgs.
          Option.bind (get_summary kvs) (\<lambda>sm.
          Option.bind (get_int kvs ''summaryUpTo'') (\<lambda>cutoff.
          Option.bind (Option.bind (get_arr kvs ''todos'') (\<lambda>xs. all_some (map task_of_json xs))) (\<lambda>tds.
          Option.bind (get_int kvs ''created'') (\<lambda>cr.
          Option.bind (get_int kvs ''updated'') (\<lambda>up.
          Some \<lparr>session_id = i, projectRoot = root, model = mdl, messages = msgs, summary = sm,
                summaryUpTo = cutoff, todos = tds, created = cr, updated = up\<rparr>)))))))))
      | _ \<Rightarrow> None)"

definition demo_io :: runtime_io where
  "demo_io =
     \<lparr>sha256_hex = (\<lambda>root. ''3a7bd3e2360a3d29eea436fcfb7e44c735d117c42d1c1835420b6b9942dd4f1b''),
      JSON_stringify = (\<lambda>s. json_print 0 (json_of_session s)),
      JSON_parse_session = (\<lambda>body. Option.bind (JSON_parse body) session_of_json)\<rparr>"

definition demo_session :: session where
  \<open>demo_session =
     \<lparr>session_id = ''6f1c2a9e-0000-4000-8000-000000000001'', projectRoot = ''/home/u/proj'',
      model = ''qwen2.5-coder:32b-instruct'',
      messages = [\<lparr>role = User, content = ''say "hi"'', timestamp = 1700000000001\<rparr>,
                  \<lparr>role = Assistant, content = ''hi'' @ [CHR 0x0A] @ ''there'', timestamp = 1700000000002\<rparr>],
      summary = Some ''Earlier: set up the repo.'', summaryUpTo = 1699999999000,
      todos = [\<lparr>task_id = ''a1b2c3d4'', task_content = ''fix bug'', status = Pending, task_created = 1700000000003\<rparr>],
      created = 1699999990000, updated = 1700000000002\<rparr>\<close>

definition empty_fs :: fs where
  "empty_fs = \<lparr>files = [], dirs = [], denied = (\<lambda>p. False)\<rparr>"

definition demo_dir :: string where
  "demo_dir = ''/home/u/.spot/sessions''"

definition demo_time :: string where
  "demo_time = ''2026-11-03T10:15:30.123Z''"

definition demo_archive_path :: string where
  "demo_archive_path = ''/home/u/.spot/sessions/proj-3a7bd3e2360a/archive/2026-11-03T10-15-30-123Z.json''"

definition demo_current_path :: string where
  "demo_current_path = ''/home/u/.spot/sessions/proj-3a7bd3e2360a/current.json''"

definition demo_manager :: manager where
  "demo_manager = \<lparr>session = demo_session, dirty = True, saveTimeout = True\<rparr>"

definition locked_fs :: fs where
  "locked_fs = \<lparr>files = [(demo_current_path, ''{}'')], dirs = [], denied = (\<lambda>p. p = demo_archive_path)\<rparr>"

section \<open>Facts about the session manager\<close>

lemma estimate_sum: "estimateMessagesTokens msgs = sum_list (map (\<lambda>m. estimateTokens (content m)) msgs)"
proof -
  have "foldl (\<lambda>sum m. sum + estimateTokens (content m)) a msgs
        = a + sum_list (map (\<lambda>m. estimateTokens (content m)) msgs)" for a
    by (induction msgs arbitrary: a) auto
  then show ?thesis by (simp add: estimateMessagesTokens_def)
qed

lemma maybeCompress_short:
  "length (messages (session mgr)) \<le> KEEP_RECENT_MESSAGES \<Longrightarrow> maybeCompress backend mgr = (False, mgr)"
  by (simp add: maybeCompress_def Let_def)

lemma maybeCompress_fires:
  assumes "CONTEXT_THRESHOLD \<le> estimateMessagesTokens (messages (session mgr))"
    and "KEEP_RECENT_MESSAGES < length (messages (session mgr))"
  shows "maybeCompress backend mgr =
     (True, markDirty (mgr\<lparr>session := (session mgr)\<lparr>
        summary := Some (if truthy (summary (session mgr))
                         then the (summary (session mgr)) @ ''\<newline>\<newline>---\<newline>\<newline>''
                              @ summarize backend (take (length (messages (session mgr)) - KEEP_RECENT_MESSAGES) (messages (session mgr)))
                         else summarize backend (take (length (messages (session mgr)) - KEEP_RECENT_MESSAGES) (messages (session mgr)))),
        summaryUpTo := timestamp (messages (session mgr) ! (length (messages (session mgr)) - KEEP_RECENT_MESSAGES - 1)),
        messages := drop (length (messages (session mgr)) - KEEP_RECENT_MESSAGES) (messages (session mgr))\<rparr>\<rparr>))"
proof -
  let ?msgs = "messages (session mgr)"
  let ?k = "length ?msgs - KEEP_RECENT_MESSAGES"
  have k: "nat (max 0 (int (length ?msgs) - int KEEP_RECENT_MESSAGES)) = ?k" by simp
  have pos: "0 < ?k" "?k \<le> length ?msgs" using assms(2) by simp_all
  have ne: "take ?k ?msgs \<noteq> []" using pos assms(2) by (auto simp: KEEP_RECENT_MESSAGES_def)
  have "last (take ?k ?msgs) = take ?k ?msgs ! (length (take ?k ?msgs) - 1)"
    using ne by (rule last_conv_nth)
  also have "length (take ?k ?msgs) = ?k" using pos by simp
  also have "take ?k ?msgs ! (?k - 1) = ?msgs ! (?k - 1)" using pos by simp
  finally have lst: "last (take ?k ?msgs) = ?msgs ! (?k - 1)" .
  have nlt: "\<not> estimateMessagesTokens ?msgs < CONTEXT_THRESHOLD" using assms(1) by simp
  show ?thesis
    unfolding maybeCompress_def Let_def k
    using nlt ne lst pos by (simp del: take_eq_Nil add: take_eq_Nil2 cong: if_cong)
qed

lemma maybeCompress_result:
  "fst (maybeCompress backend mgr) \<Longrightarrow> length (messages (session (snd (maybeCompress backend mgr)))) = KEEP_RECENT_MESSAGES"
  by (auto simp: maybeCompress_def Let_def markDirty_def KEEP_RECENT_MESSAGES_def split: if_splits)

lemma maybeCompress_cases:
  "maybeCompress backend mgr = (False, mgr) \<or>
   (\<exists>k d. 0 < k \<and> k \<le> length (messages (session mgr)) \<and>
      snd (maybeCompress backend mgr) = markDirty (mgr\<lparr>session := (session mgr)\<lparr>
        summary := Some d,
        summaryUpTo := timestamp (messages (session mgr) ! (k - 1)),
        messages := drop k (messages (session mgr))\<rparr>\<rparr>))"
proof (cases "fst (maybeCompress backend mgr)")
  case False
  then show ?thesis
    by (auto simp: maybeCompress_def Let_def split: if_splits)
next
  case True
  let ?msgs = "messages (session mgr)"
  let ?k = "nat (max 0 (int (length ?msgs) - int KEEP_RECENT_MESSAGES))"
  from True have ne: "take ?k ?msgs \<noteq> []"
    by (auto simp: maybeCompress_def Let_def split: if_splits)
  then have pos: "0 < ?k" "?k \<le> length ?msgs" by auto
  have "last (take ?k ?msgs) = take ?k ?msgs ! (length (take ?k ?msgs) - 1)"
    using ne by (rule last_conv_nth)
  also have "length (take ?k ?msgs) = ?k" using pos by simp
  also have "take ?k ?msgs ! (?k - 1) = ?msgs ! (?k - 1)" using pos by simp
  finally have lst: "last (take ?k ?msgs) = ?msgs ! (?k - 1)" .
  from True have "snd (maybeCompress backend mgr) = markDirty (mgr\<lparr>session := (session mgr)\<lparr>
        summary := Some (if truthy (summary (session mgr))
                         then the (summary (session mgr)) @ ''\<newline>\<newline>---\<newline>\<newline>'' @ summarize backend (take ?k ?msgs)
                         else summarize backend (take ?k ?msgs)),
        summaryUpTo := timestamp (?msgs ! (?k - 1)),
        messages := drop ?k ?msgs\<rparr>\<rparr>)"
    unfolding lst[symmetric]
    by (auto simp: maybeCompress_def Let_def split: if_splits)
  with pos show ?thesis by blast
qed

lemma sorted_drop_nth:
  assumes "sorted (u # ts @ rest)" and "0 < k" and "k \<le> length ts"
  shows "(u::int) \<le> ts ! (k - 1) \<and> sorted (ts ! (k - 1) # drop k ts @ rest)"
proof -
  define front where "front = take (k - 1) ts"
  define rear where "rear = drop k ts"
  have "ts = front @ ts ! (k - 1) # rear"
    unfolding front_def rear_def
    using assms(2,3) by (metis Suc_diff_1 id_take_nth_drop less_eq_Suc_le)
  then have "sorted (u # (front @ ts ! (k - 1) # rear) @ rest)"
    using assms(1) by metis
  then show ?thesis
    unfolding rear_def[symmetric] by (auto simp: sorted_append)
qed

lemma apply_op_step:
  assumes "sorted (summaryUpTo (session mgr) # map timestamp (messages (session mgr)) @ clock_reads x @ rest)"
  shows "summaryUpTo (session mgr) \<le> summaryUpTo (session (apply_op backend x mgr))
     \<and> sorted (summaryUpTo (session (apply_op backend x mgr))
               # map timestamp (messages (session (apply_op backend x mgr))) @ rest)"
proof (cases x)
  case (AddMessage r body now1 now2)
  with assms show ?thesis
    by (auto simp: addMessage_def Let_def markDirty_def sorted_append)
next
  case MaybeCompress
  from maybeCompress_cases[of backend mgr] show ?thesis
  proof
    assume "maybeCompress backend mgr = (False, mgr)"
    with assms MaybeCompress show ?thesis by simp
  next
    assume "\<exists>k d. 0 < k \<and> k \<le> length (messages (session mgr)) \<and>
      snd (maybeCompress backend mgr) = markDirty (mgr\<lparr>session := (session mgr)\<lparr>
        summary := Some d,
        summaryUpTo := timestamp (messages (session mgr) ! (k - 1)),
        messages := drop k (messages (session mgr))\<rparr>\<rparr>)"
    then obtain k d where k: "0 < k" "k \<le> length (messages (session mgr))"
      and eq: "snd (maybeCompress backend mgr) = markDirty (mgr\<lparr>session := (session mgr)\<lparr>
        summary := Some d,
        summaryUpTo := timestamp (messages (session mgr) ! (k - 1)),
        messages := drop k (messages (session mgr))\<rparr>\<rparr>)" by blast
    have "sorted (summaryUpTo (session mgr) # map timestamp (messages (session mgr)) @ rest)"
      using assms MaybeCompress by simp
    from sorted_drop_nth[OF this, of k] k
    show ?thesis
      by (simp add: MaybeCompress eq markDirty_def drop_map)
  qed
next
  case (SetModel mdl)
  with assms show ?thesis by (simp add: setModel_def markDirty_def)
next
  case (AddTodo body uuid now)
  with assms show ?thesis by (auto simp: addTodo_def Let_def markDirty_def sorted_append)
next
  case (UpdateTodo i st)
  with assms show ?thesis by (simp add: updateTodo_def markDirty_def split: option.splits)
next
  case (RemoveTodo i)
  with assms show ?thesis by (simp add: removeTodo_def markDirty_def)
next
  case ClearCompletedTodos
  with assms show ?thesis by (simp add: clearCompletedTodos_def Let_def markDirty_def)
qed

lemma big_manager_estimate: "estimateMessagesTokens (messages (session big_manager)) = 24750"
  by (simp add: estimate_sum big_manager_def big_message_def estimateTokens_def fresh_manager_def)

lemma big_manager_length: "length (messages (session big_manager)) = 11"
  by (simp add: big_manager_def)

lemma fallbackSummary_nonempty: "fallbackSummary msgs \<noteq> []"
  by (simp add: fallbackSummary_def Let_def)

section \<open>Claims about compaction\<close>

text \<open>
  C1, as the code has it. When the token estimate has reached the threshold of 24000 and
  the session holds more than 10 messages, one run of \<open>maybeCompress\<close> returns true, keeps
  exactly the last 10 messages, sets \<open>summaryUpTo\<close> to the timestamp of the 11th message
  from the end, and sets \<open>summary\<close> to the digest, appended to the earlier summary after
  the delimiter when there is one. The new summary is a non-empty text when the earlier
  summary was one or the digest is one; the digest is non-empty in particular when the
  backend never answers with the empty text, since the fallback text is never empty.
\<close>

theorem maybeCompress_compacts:
  fixes backend :: "string \<Rightarrow> string + string" and mgr :: manager
  assumes "CONTEXT_THRESHOLD \<le> estimateMessagesTokens (messages (session mgr))"
    and "KEEP_RECENT_MESSAGES < length (messages (session mgr))"
  defines "n \<equiv> length (messages (session mgr))"
  defines "digest \<equiv> summarize backend (take (n - KEEP_RECENT_MESSAGES) (messages (session mgr)))"
  defines "s' \<equiv> session (snd (maybeCompress backend mgr))"
  shows "fst (maybeCompress backend mgr)
     \<and> messages s' = drop (n - 10) (messages (session mgr))
     \<and> length (messages s') = 10
     \<and> summaryUpTo s' = timestamp (messages (session mgr) ! (n - 11))
     \<and> summary s' = Some (if truthy (summary (session mgr))
                          then the (summary (session mgr)) @ ''\<newline>\<newline>---\<newline>\<newline>'' @ digest
                          else digest)
     \<and> (truthy (summary (session mgr)) \<or> digest \<noteq> [] \<longrightarrow> truthy (summary s'))
     \<and> ((\<forall>prompt. backend prompt \<noteq> Inr []) \<longrightarrow> truthy (summary s'))"
proof -
  have d: "(\<forall>prompt. backend prompt \<noteq> Inr []) \<Longrightarrow> digest \<noteq> []"
    unfolding digest_def summarize_def Let_def
    by (auto simp: fallbackSummary_nonempty split: sum.splits)
  show ?thesis
    unfolding s'_def maybeCompress_fires[OF assms(1,2)]
    using assms(2) d
    by (auto simp: markDirty_def n_def digest_def truthy_def KEEP_RECENT_MESSAGES_def)
qed

theorem maybeCompress_compacts_witness:
  "CONTEXT_THRESHOLD \<le> estimateMessagesTokens (messages (session big_manager))
   \<and> KEEP_RECENT_MESSAGES < length (messages (session big_manager))
   \<and> fst (maybeCompress fixed_backend big_manager)
   \<and> messages (session (snd (maybeCompress fixed_backend big_manager)))
       = map big_message [1002, 1003, 1004, 1005, 1006, 1007, 1008, 1009, 1010, 1011]
   \<and> summaryUpTo (session (snd (maybeCompress fixed_backend big_manager))) = 1001
   \<and> summary (session (snd (maybeCompress fixed_backend big_manager))) = Some ''digest''"
proof -
  have h1: "CONTEXT_THRESHOLD \<le> estimateMessagesTokens (messages (session big_manager))"
    by (simp add: big_manager_estimate CONTEXT_THRESHOLD_def)
  have h2: "KEEP_RECENT_MESSAGES < length (messages (session big_manager))"
    by (simp add: big_manager_length KEEP_RECENT_MESSAGES_def)
  have s: "summarize fixed_backend msgs = ''digest''" for msgs
    by (simp add: summarize_def fixed_backend_def)
  show ?thesis
    using h1 h2 maybeCompress_compacts[OF h1 h2, of fixed_backend]
    by (simp add: big_manager_length s KEEP_RECENT_MESSAGES_def)
       (simp add: big_manager_def fresh_manager_def createEmptySession_def truthy_def big_message_def)
qed

text \<open>
  C1 as stated fails where the backend answers the digest request with the empty text and
  the session has no earlier summary: the compaction runs and leaves the empty string as
  the summary.
\<close>

theorem maybeCompress_empty_digest:
  "CONTEXT_THRESHOLD < estimateMessagesTokens (messages (session big_manager))
   \<and> 10 < length (messages (session big_manager))
   \<and> fst (maybeCompress silent_backend big_manager)
   \<and> summary (session (snd (maybeCompress silent_backend big_manager))) = Some []"
proof -
  have h1: "CONTEXT_THRESHOLD \<le> estimateMessagesTokens (messages (session big_manager))"
    by (simp add: big_manager_estimate CONTEXT_THRESHOLD_def)
  have h2: "KEEP_RECENT_MESSAGES < length (messages (session big_manager))"
    by (simp add: big_manager_length KEEP_RECENT_MESSAGES_def)
  have s: "summarize silent_backend msgs = []" for msgs
    by (simp add: summarize_def silent_backend_def)
  have t: "\<not> truthy (summary (session big_manager))"
    by (simp add: big_manager_def fresh_manager_def createEmptySession_def truthy_def)
  show ?thesis
    unfolding maybeCompress_fires[OF h1 h2]
    by (simp add: big_manager_estimate big_manager_length CONTEXT_THRESHOLD_def s t markDirty_def)
qed

text \<open>
  C6. When a run of \<open>maybeCompress\<close> compacts, the run that follows it with no message
  added in between returns false and leaves the manager, and with it the messages, the
  summary and \<open>summaryUpTo\<close>, as they are, whatever the backend would answer.
\<close>

theorem compress_twice:
  assumes "fst (maybeCompress backend mgr)"
  shows "maybeCompress backend' (snd (maybeCompress backend mgr)) = (False, snd (maybeCompress backend mgr))"
  using maybeCompress_result[OF assms] by (simp add: maybeCompress_short)

theorem compress_twice_witness:
  "fst (maybeCompress fixed_backend big_manager)
   \<and> maybeCompress silent_backend (snd (maybeCompress fixed_backend big_manager))
       = (False, snd (maybeCompress fixed_backend big_manager))"
proof -
  have h1: "CONTEXT_THRESHOLD \<le> estimateMessagesTokens (messages (session big_manager))"
    by (simp add: big_manager_estimate CONTEXT_THRESHOLD_def)
  have h2: "KEEP_RECENT_MESSAGES < length (messages (session big_manager))"
    by (simp add: big_manager_length KEEP_RECENT_MESSAGES_def)
  have f: "fst (maybeCompress fixed_backend big_manager)"
    by (simp add: maybeCompress_fires[OF h1 h2])
  show ?thesis using f compress_twice[OF f, of silent_backend] by simp
qed

lemma run_ops_sorted:
  assumes "sorted (summaryUpTo (session mgr) # map timestamp (messages (session mgr))
                   @ concat (map clock_reads ops))"
  shows "sorted (map (\<lambda>m. summaryUpTo (session m)) (run_ops backend ops mgr))"
  using assms
proof (induction ops arbitrary: mgr)
  case Nil
  then show ?case by simp
next
  case (Cons x xs)
  from Cons.prems have pre: "sorted (summaryUpTo (session mgr) # map timestamp (messages (session mgr))
       @ clock_reads x @ concat (map clock_reads xs))" by simp
  note step = apply_op_step[OF pre, of backend]
  have tl: "sorted (map (\<lambda>m. summaryUpTo (session m)) (run_ops backend xs (apply_op backend x mgr)))"
    using Cons.IH step by blast
  obtain more where hd: "run_ops backend xs (apply_op backend x mgr) = apply_op backend x mgr # more"
    by (cases xs) simp_all
  have "\<forall>m \<in> set more. summaryUpTo (session (apply_op backend x mgr)) \<le> summaryUpTo (session m)"
    using tl unfolding hd by simp
  then have "\<forall>m \<in> set more. summaryUpTo (session mgr) \<le> summaryUpTo (session m)"
    using step by (meson order_trans)
  then show ?case
    using tl step unfolding run_ops.simps hd by simp
qed

lemma maybeCompress_fst:
  assumes "fst (maybeCompress backend mgr)"
  shows "CONTEXT_THRESHOLD \<le> estimateMessagesTokens (messages (session mgr))"
    and "KEEP_RECENT_MESSAGES < length (messages (session mgr))"
  using assms by (auto simp: maybeCompress_def Let_def split: if_splits)

lemma maybeCompress_not_fst:
  "\<not> fst (maybeCompress backend mgr) \<Longrightarrow> maybeCompress backend mgr = (False, mgr)"
  by (auto simp: maybeCompress_def Let_def split: if_splits)

lemma maybeCompress_cutoff:
  "summaryUpTo (session (snd (maybeCompress backend mgr))) =
     (if fst (maybeCompress backend mgr)
      then timestamp (messages (session mgr) ! (length (messages (session mgr)) - 11))
      else summaryUpTo (session mgr))"
proof (cases "fst (maybeCompress backend mgr)")
  case True
  note h = maybeCompress_fst[OF True]
  show ?thesis
    using True unfolding maybeCompress_fires[OF h]
    by (simp add: markDirty_def KEEP_RECENT_MESSAGES_def)
next
  case False
  with maybeCompress_not_fst[OF False] show ?thesis by simp
qed

lemma other_ops_keep_cutoff:
  "summaryUpTo (session (addMessage r body now1 now2 mgr)) = summaryUpTo (session mgr)"
  "summaryUpTo (session (setModel mdl mgr)) = summaryUpTo (session mgr)"
  "summaryUpTo (session (snd (addTodo body uuid now mgr))) = summaryUpTo (session mgr)"
  "summaryUpTo (session (snd (updateTodo i st mgr))) = summaryUpTo (session mgr)"
  "summaryUpTo (session (snd (removeTodo i mgr))) = summaryUpTo (session mgr)"
  "summaryUpTo (session (snd (clearCompletedTodos mgr))) = summaryUpTo (session mgr)"
  by (simp_all add: addMessage_def setModel_def addTodo_def updateTodo_def removeTodo_def
      clearCompletedTodos_def markDirty_def Let_def split: option.splits)

text \<open>
  C8, as the code has it. \<open>addMessage\<close>, \<open>setModel\<close> and the task operations never write
  \<open>summaryUpTo\<close>; \<open>maybeCompress\<close>, when it compacts, sets it to the timestamp of the last
  compacted message, the eleventh from the end, and otherwise leaves it. Over any sequence
  of these operations \<open>summaryUpTo\<close> never decreases, provided the cutoff, the timestamps
  of the messages held and the later readings of the clock form a non-decreasing sequence,
  as they do from a fresh session under a clock that does not go back.
\<close>

theorem summaryUpTo_monotone:
  "summaryUpTo (session (addMessage r body now1 now2 mgr)) = summaryUpTo (session mgr)
   \<and> summaryUpTo (session (setModel mdl mgr)) = summaryUpTo (session mgr)
   \<and> summaryUpTo (session (snd (addTodo body uuid now mgr))) = summaryUpTo (session mgr)
   \<and> summaryUpTo (session (snd (updateTodo i st mgr))) = summaryUpTo (session mgr)
   \<and> summaryUpTo (session (snd (removeTodo i mgr))) = summaryUpTo (session mgr)
   \<and> summaryUpTo (session (snd (clearCompletedTodos mgr))) = summaryUpTo (session mgr)
   \<and> summaryUpTo (session (snd (maybeCompress backend mgr))) =
       (if fst (maybeCompress backend mgr)
        then timestamp (messages (session mgr) ! (length (messages (session mgr)) - 11))
        else summaryUpTo (session mgr))
   \<and> (sorted (summaryUpTo (session mgr) # map timestamp (messages (session mgr))
                @ concat (map clock_reads ops))
      \<longrightarrow> sorted (cutoffs backend ops mgr))"
proof (intro conjI impI)
  show "summaryUpTo (session (snd (maybeCompress backend mgr))) =
       (if fst (maybeCompress backend mgr)
        then timestamp (messages (session mgr) ! (length (messages (session mgr)) - 11))
        else summaryUpTo (session mgr))"
    by (rule maybeCompress_cutoff)
next
  assume "sorted (summaryUpTo (session mgr) # map timestamp (messages (session mgr))
                @ concat (map clock_reads ops))"
  then show "sorted (cutoffs backend ops mgr)"
    unfolding cutoffs_def by (rule run_ops_sorted)
qed (rule other_ops_keep_cutoff)+

theorem summaryUpTo_monotone_witness:
  "sorted (summaryUpTo (session fresh_manager) # map timestamp (messages (session fresh_manager))
           @ concat (map clock_reads growing_ops))
   \<and> sorted (cutoffs fixed_backend growing_ops fresh_manager)
   \<and> last (cutoffs fixed_backend growing_ops fresh_manager) = 2001
   \<and> fst (maybeCompress fixed_backend big_manager)
   \<and> summaryUpTo (session (snd (maybeCompress fixed_backend big_manager))) = 1001
   \<and> summaryUpTo (session (addMessage User ''hello'' 3000 3000 big_manager)) = 0"
proof -
  have h: "sorted (summaryUpTo (session fresh_manager) # map timestamp (messages (session fresh_manager))
           @ concat (map clock_reads growing_ops))"
    by (simp add: fresh_manager_def createEmptySession_def growing_ops_def)
  have s: "summarize fixed_backend msgs = ''digest''" for msgs
    by (simp add: summarize_def fixed_backend_def)
  have l: "last (cutoffs fixed_backend growing_ops fresh_manager) = 2001"
    by (simp add: cutoffs_def growing_ops_def fresh_manager_def createEmptySession_def
        addMessage_def markDirty_def maybeCompress_def s estimate_sum estimateTokens_def
        CONTEXT_THRESHOLD_def KEEP_RECENT_MESSAGES_def truthy_def Let_def)
  have h1: "CONTEXT_THRESHOLD \<le> estimateMessagesTokens (messages (session big_manager))"
    by (simp add: big_manager_estimate CONTEXT_THRESHOLD_def)
  have h2: "KEEP_RECENT_MESSAGES < length (messages (session big_manager))"
    by (simp add: big_manager_length KEEP_RECENT_MESSAGES_def)
  have f: "fst (maybeCompress fixed_backend big_manager)"
    by (simp add: maybeCompress_fires[OF h1 h2])
  have t: "timestamp (messages (session big_manager) ! (length (messages (session big_manager)) - 11)) = 1001"
    by (simp add: big_manager_def big_message_def)
  have z: "summaryUpTo (session big_manager) = 0"
    by (simp add: big_manager_def fresh_manager_def createEmptySession_def)
  note inst1 = summaryUpTo_monotone[of User "''hello''" 3000 3000 big_manager "''m''" "''u''" 1 "''i''" Pending fixed_backend "[]"]
  note inst2 = summaryUpTo_monotone[of User "''hello''" 3000 3000 fresh_manager "''m''" "''u''" 1 "''i''" Pending fixed_backend growing_ops]
  from inst1 f t z have a: "summaryUpTo (session (snd (maybeCompress fixed_backend big_manager))) = 1001"
    and b: "summaryUpTo (session (addMessage User ''hello'' 3000 3000 big_manager)) = 0"
    by simp_all
  from inst2 h have c: "sorted (cutoffs fixed_backend growing_ops fresh_manager)" by blast
  from h c l f a b show ?thesis by blast
qed

text \<open>
  C8 as stated fails when the clock is set back: from a fresh session, a message
  stamped 2000 and ten messages stamped 1500 to 1509 are added and compacted, which moves
  \<open>summaryUpTo\<close> to 2000, the stamp of the first; one more message follows, and the next
  compaction moves \<open>summaryUpTo\<close> down to 1500.
\<close>

theorem summaryUpTo_decreases:
  "cutoffs fixed_backend rollback_ops fresh_manager =
     [0, 0, 0, 0, 0, 0, 0, 0, 0, 0, 0, 0, 2000, 2000, 1500]"
proof -
  have s: "summarize fixed_backend msgs = ''digest''" for msgs
    by (simp add: summarize_def fixed_backend_def)
  show ?thesis
    by (simp add: cutoffs_def rollback_ops_def fresh_manager_def createEmptySession_def
        addMessage_def markDirty_def maybeCompress_def s estimate_sum estimateTokens_def
        CONTEXT_THRESHOLD_def KEEP_RECENT_MESSAGES_def truthy_def Let_def)
qed

section \<open>Facts about scanning\<close>

lemma rx_match_suffix:
  "((p', s'), c') \<in> set (rx_match r (p, s) c) \<Longrightarrow> suffix s' s"
proof (induction r "(p, s)" c arbitrary: p s p' s' c' rule: rx_match.induct)
  case (1 P p s c)
  then show ?case by (auto split: list.splits if_splits simp: suffix_Cons)
next
  case (2 r1 r2 p s c)
  from "2.prems" obtain p1 s1 c1 where a: "((p1, s1), c1) \<in> set (rx_match r1 (p, s) c)"
    and b: "((p', s'), c') \<in> set (rx_match r2 (p1, s1) c1)" by auto
  from "2.hyps"(1)[OF a] "2.hyps"(2)[OF a _ b] show ?case
    by (auto intro: suffix_order.trans)
next
  case (3 r1 r2 p s c)
  then show ?case by auto
next
  case (4 r p s c)
  from "4.prems" have "((p', s'), c') \<in> set (concat (map (\<lambda>(cur, c'). if length (snd cur) < length s then rx_match (Star r) cur c' else [])
                 (rx_match r (p, s) c)) @ [((p, s), c)])"
    by (simp only: rx_match.simps)
  then consider "s' = s" | p1 s1 c1 where "((p1, s1), c1) \<in> set (rx_match r (p, s) c)"
    "length s1 < length s" "((p', s'), c') \<in> set (rx_match (Star r) (p1, s1) c1)"
    by (auto simp del: rx_match.simps split: if_splits)
  then show ?case
  proof cases
    case 1
    then show ?thesis by simp
  next
    case 2
    from "4.hyps"(1)[OF 2(1)] "4.hyps"(2)[OF 2(1) _ _ 2(3)] 2(2) show ?thesis
      by (auto intro: suffix_order.trans)
  qed
next
  case (5 k r p s c)
  then show ?case by auto
next
  case (6 p s c)
  then show ?case by (auto split: if_splits)
qed


lemma match_all_sublist: "x \<in> set (match_all r p s) \<Longrightarrow> sublist x s"
proof (induction r p s rule: match_all.induct)
  case (1 r p s)
  note unf = match_all.simps[of r p s]
  show ?case
  proof (cases "rx_match r (p, s) []")
    case Nil
    note no = Nil
    show ?thesis
    proof (cases s)
      case Nil
      from "1.prems" have "x \<in> set []" unfolding unf unfolding no unfolding Nil by simp
      then show ?thesis by simp
    next
      case (Cons a as)
      from "1.prems" have "x \<in> set (match_all r (Some a) as)"
        unfolding unf unfolding no unfolding Cons by simp
      from "1.IH"(1)[OF no Cons this] Cons show ?thesis
        by (simp add: sublist_Cons_right)
    qed
  next
    case (Cons h t)
    note hd = Cons
    obtain p' s' c' where h: "h = ((p', s'), c')" by (metis prod.exhaust)
    have e1: "((p', s'), c') = h" using h by simp
    have e2: "(p', s') = (p', s')" by simp
    have suf: "suffix s' s"
      using rx_match_suffix[of p' s' c' r p s "[]"] hd h by simp
    show ?thesis
    proof (cases "length s' < length s")
      case True
      from "1.prems" have "x = take (length s - length s') s \<or> x \<in> set (match_all r p' s')"
        unfolding unf unfolding hd h using True by simp
      then show ?thesis
      proof
        assume "x = take (length s - length s') s"
        then have "prefix x s" by (simp add: take_is_prefix)
        then show ?thesis by (rule prefix_imp_sublist)
      next
        assume x: "x \<in> set (match_all r p' s')"
        have "sublist x s'"
          by (rule "1.IH"(2)[OF hd e1 e2 True x])
        with suf show ?thesis by (auto simp: sublist_def suffix_def) (metis append.assoc)
      qed
    next
      case False
      show ?thesis
      proof (cases s)
        case Nil
        from "1.prems" have "x = []"
          unfolding unf unfolding hd h using False unfolding Nil by simp
        then show ?thesis by simp
      next
        case (Cons a as)
        from "1.prems" have "x = [] \<or> x \<in> set (match_all r (Some a) as)"
          unfolding unf unfolding hd h using False unfolding Cons by simp
        then show ?thesis
        proof
          assume "x = []" then show ?thesis by simp
        next
          assume x: "x \<in> set (match_all r (Some a) as)"
          have "sublist x as"
            by (rule "1.IH"(3)[OF hd e1 e2 False Cons x])
          then show ?thesis using Cons by (simp add: sublist_Cons_right)
        qed
      qed
    qed
  qed
qed

lemma distinct_uniq: "distinct (uniq xs)"
  by (simp add: uniq_def)

lemma set_uniq: "set (uniq xs) = set xs"
  by (simp add: uniq_def)

lemma rx_match_min_len:
  "((p', s'), c') \<in> set (rx_match r (p, s) c) \<Longrightarrow> length s' + min_len r \<le> length s"
proof (induction r "(p, s)" c arbitrary: p s p' s' c' rule: rx_match.induct)
  case (1 P p s c)
  then show ?case by (auto split: list.splits if_splits)
next
  case (2 r1 r2 p s c)
  from "2.prems" obtain p1 s1 c1 where a: "((p1, s1), c1) \<in> set (rx_match r1 (p, s) c)"
    and b: "((p', s'), c') \<in> set (rx_match r2 (p1, s1) c1)" by auto
  from "2.hyps"(1)[OF a] "2.hyps"(2)[OF a _ b] show ?case by simp
next
  case (3 r1 r2 p s c)
  from "3.prems" consider "((p', s'), c') \<in> set (rx_match r1 (p, s) c)"
    | "((p', s'), c') \<in> set (rx_match r2 (p, s) c)" by auto
  then show ?case
  proof cases
    case 1
    from "3.hyps"(1)[OF 1] show ?thesis by simp
  next
    case 2
    from "3.hyps"(2)[OF 2] show ?thesis by simp
  qed
next
  case (4 r p s c)
  from "4.prems" have "suffix s' s" by (rule rx_match_suffix)
  then show ?case by (simp add: suffix_length_le)
next
  case (5 k r p s c)
  then show ?case by auto
next
  case (6 p s c)
  then show ?case by (auto split: if_splits)
qed

lemma rx_match_Seq_iff:
  "(cur', c') \<in> set (rx_match (Seq r1 r2) (p, s) c) \<longleftrightarrow>
     (\<exists>p1 s1 c1. ((p1, s1), c1) \<in> set (rx_match r1 (p, s) c) \<and> (cur', c') \<in> set (rx_match r2 (p1, s1) c1))"
  by auto

lemma rx_match_SeqE:
  assumes "(cur', c') \<in> set (rx_match (Seq r1 r2) (p, s) c)"
  obtains p1 s1 c1 where "((p1, s1), c1) \<in> set (rx_match r1 (p, s) c)"
    and "(cur', c') \<in> set (rx_match r2 (p1, s1) c1)"
  using assms unfolding rx_match_Seq_iff by blast

declare rx_match.simps(4) [simp del]

lemma rx_match_Cls_elim:
  assumes "((p', s'), c') \<in> set (rx_match (Cls P) (p, s) c)"
  shows "\<exists>x. s = x # s' \<and> P x \<and> c' = c"
  using assms by (auto split: list.splits if_splits)

lemma star_stop: "((p, s), c) \<in> set (rx_match (Star r) (p, s) c)"
  by (subst rx_match.simps(4)) (simp del: rx_match.simps)

lemma star_cls_Cons:
  "rx_match (Star (Cls P)) (p, x # t) c =
     (if P x then rx_match (Star (Cls P)) (Some x, t) c else []) @ [((p, x # t), c)]"
  by (simp add: rx_match.simps(4)[of "Cls P" p "x # t" c] del: rx_match.simps(4))

lemma star_cls_Nil: "rx_match (Star (Cls P)) (p, []) c = [((p, []), c)]"
  by (simp add: rx_match.simps(4)[of "Cls P" p "[]" c] del: rx_match.simps(4))

lemma rx_match_Star_Cls_elim:
  "((p', s'), c') \<in> set (rx_match (Star (Cls P)) (p, s) c) \<Longrightarrow> \<exists>xs. s = xs @ s' \<and> list_all P xs"
proof (induction s arbitrary: p)
  case Nil
  then show ?case by (simp add: star_cls_Nil)
next
  case (Cons x t)
  from Cons.prems consider "P x" "((p', s'), c') \<in> set (rx_match (Star (Cls P)) (Some x, t) c)" | "s' = x # t"
    by (auto simp add: star_cls_Cons split: if_splits)
  then show ?case
  proof cases
    case 1
    from Cons.IH[OF 1(2)] obtain xs where "t = xs @ s'" "list_all P xs" by blast
    with 1(1) have "x # t = (x # xs) @ s' \<and> list_all P (x # xs)" by simp
    then show ?thesis by blast
  next
    case 2
    then have "x # t = [] @ s' \<and> list_all P []" by simp
    then show ?thesis by blast
  qed
qed

lemma rx_match_Plus_Cls_elim:
  assumes "((p', s'), c') \<in> set (rx_match (Plus (Cls P)) (p, s) c)"
  shows "\<exists>xs. s = xs @ s' \<and> xs \<noteq> [] \<and> list_all P xs"
proof -
  from assms obtain p1 s1 c1 where a: "((p1, s1), c1) \<in> set (rx_match (Cls P) (p, s) c)"
    and b: "((p', s'), c') \<in> set (rx_match (Star (Cls P)) (p1, s1) c1)"
    unfolding Plus_def by (rule rx_match_SeqE)
  from rx_match_Cls_elim[OF a] obtain x where x: "s = x # s1" "P x" by blast
  from rx_match_Star_Cls_elim[OF b] obtain xs where "s1 = xs @ s'" "list_all P xs" by blast
  with x have "s = (x # xs) @ s' \<and> x # xs \<noteq> [] \<and> list_all P (x # xs)" by simp
  then show ?thesis by blast
qed

lemma pathPattern_unfold:
  "pathPattern = Seq (Plus (Cls path_char)) (Seq (Chr CHR ''.'') (Plus (Cls is_word)))"
  by (simp add: pathPattern_def)

lemma pathPattern_consumes:
  assumes "((p', s'), c') \<in> set (rx_match pathPattern (q, s0) c)"
  shows "\<exists>x. s0 = x @ s' \<and> path_like x"
proof -
  from assms obtain p1 s1 c1 where a: "((p1, s1), c1) \<in> set (rx_match (Plus (Cls path_char)) (q, s0) c)"
    and r: "((p', s'), c') \<in> set (rx_match (Seq (Chr CHR ''.'') (Plus (Cls is_word))) (p1, s1) c1)"
    unfolding pathPattern_unfold by (rule rx_match_SeqE)
  from r obtain p2 s2 c2 where b: "((p2, s2), c2) \<in> set (rx_match (Chr CHR ''.'') (p1, s1) c1)"
    and d: "((p', s'), c') \<in> set (rx_match (Plus (Cls is_word)) (p2, s2) c2)"
    by (rule rx_match_SeqE)
  from rx_match_Plus_Cls_elim[OF a] obtain xa where xa: "s0 = xa @ s1" "xa \<noteq> []" "list_all path_char xa" by blast
  from rx_match_Cls_elim[OF b[unfolded Chr_def]] have dot: "s1 = CHR ''.'' # s2" by blast
  from rx_match_Plus_Cls_elim[OF d] obtain xb where xb: "s2 = xb @ s'" "xb \<noteq> []" "list_all is_word xb" by blast
  have "s0 = (xa @ ''.'' @ xb) @ s'" using xa dot xb by simp
  moreover have "path_like (xa @ ''.'' @ xb)" unfolding path_like_def using xa xb by blast
  ultimately show ?thesis by blast
qed

lemma min_len_pathPattern: "0 < min_len pathPattern"
  by (simp add: pathPattern_def Plus_def Chr_def)

lemma match_all_hits:
  "0 < min_len r \<Longrightarrow> x \<in> set (match_all r p s) \<Longrightarrow>
     \<exists>q s0 p' s' c. ((p', s'), c) \<in> set (rx_match r (q, s0) []) \<and> x = take (length s0 - length s') s0"
proof (induction r p s rule: match_all.induct)
  case (1 r p s)
  note unf = match_all.simps[of r p s]
  show ?case
  proof (cases "rx_match r (p, s) []")
    case Nil
    note no = Nil
    show ?thesis
    proof (cases s)
      case Nil
      from "1.prems"(2) have "x \<in> set []" unfolding unf unfolding no unfolding Nil by simp
      then show ?thesis by simp
    next
      case (Cons a as)
      from "1.prems"(2) have "x \<in> set (match_all r (Some a) as)"
        unfolding unf unfolding no unfolding Cons by simp
      from "1.IH"(1)[OF no Cons "1.prems"(1) this] show ?thesis .
    qed
  next
    case (Cons h t)
    note hd = Cons
    obtain p' s' c' where h: "h = ((p', s'), c')" by (metis prod.exhaust)
    have e1: "((p', s'), c') = h" using h by simp
    have e2: "(p', s') = (p', s')" by simp
    have hit: "((p', s'), c') \<in> set (rx_match r (p, s) [])" using hd h by simp
    from rx_match_min_len[OF hit] "1.prems"(1) have True: "length s' < length s" by linarith
    from "1.prems"(2) have "x = take (length s - length s') s \<or> x \<in> set (match_all r p' s')"
      unfolding unf unfolding hd h using True by simp
    then show ?thesis
    proof
      assume "x = take (length s - length s') s"
      with hit show ?thesis by blast
    next
      assume x: "x \<in> set (match_all r p' s')"
      show ?thesis by (rule "1.IH"(2)[OF hd e1 e2 True "1.prems"(1) x])
    qed
  qed
qed

lemma match_all_path_like: "x \<in> set (match_all pathPattern p s) \<Longrightarrow> path_like x"
proof -
  assume "x \<in> set (match_all pathPattern p s)"
  from match_all_hits[OF min_len_pathPattern this] obtain q s0 p' s' c where
    hit: "((p', s'), c) \<in> set (rx_match pathPattern (q, s0) [])" and x: "x = take (length s0 - length s') s0"
    by blast
  from pathPattern_consumes[OF hit] obtain y where "s0 = y @ s'" "path_like y" by blast
  with x show ?thesis by simp
qed

lemma star_reaches:
  "list_all P xs \<Longrightarrow> ((adv p xs, s), c) \<in> set (rx_match (Star (Cls P)) (p, xs @ s) c)"
proof (induction xs arbitrary: p)
  case Nil
  show ?case using star_stop[of p s c "Cls P"] by (simp del: rx_match.simps)
next
  case (Cons x xs)
  then have px: "P x" and rest: "list_all P xs" by simp_all
  from Cons.IH[OF rest, of "Some x"] px show ?case
    by (simp add: star_cls_Cons del: rx_match.simps)
qed

lemma plus_reaches:
  assumes "list_all P xs" and "xs \<noteq> []"
  shows "((adv p xs, s), c) \<in> set (rx_match (Plus (Cls P)) (p, xs @ s) c)"
proof -
  from assms obtain x t where xs: "xs = x # t" by (cases xs) auto
  with assms have px: "P x" and pt: "list_all P t" by simp_all
  have a: "((Some x, t @ s), c) \<in> set (rx_match (Cls P) (p, xs @ s) c)" using px xs by (simp del: rx_match.simps(4))
  have b: "((adv (Some x) t, s), c) \<in> set (rx_match (Star (Cls P)) (Some x, t @ s) c)"
    by (rule star_reaches[OF pt])
  show ?thesis
    unfolding Plus_def rx_match_Seq_iff using a b xs by (auto simp del: rx_match.simps)
qed

lemma pathPattern_matches:
  assumes "path_like x"
  shows "rx_match pathPattern (q, x @ s) [] \<noteq> []"
proof -
  from assms obtain a b where x: "x = a @ ''.'' @ b" and a: "a \<noteq> []" "list_all path_char a"
    and b: "b \<noteq> []" "list_all is_word b" unfolding path_like_def by blast
  have m1: "((adv q a, ''.'' @ b @ s), []) \<in> set (rx_match (Plus (Cls path_char)) (q, a @ ''.'' @ b @ s) [])"
    by (rule plus_reaches[OF a(2,1)])
  have m2: "((Some CHR ''.'', b @ s), []) \<in> set (rx_match (Chr CHR ''.'') (adv q a, ''.'' @ b @ s) [])"
    by (simp add: Chr_def del: rx_match.simps(4))
  have m3: "((adv (Some CHR ''.'') b, s), []) \<in> set (rx_match (Plus (Cls is_word)) (Some CHR ''.'', b @ s) [])"
    by (rule plus_reaches[OF b(2,1)])
  have "((adv (Some CHR ''.'') b, s), []) \<in> set (rx_match pathPattern (q, x @ s) [])"
    unfolding pathPattern_unfold rx_match_Seq_iff x using m1 m2 m3 by (simp del: rx_match.simps) blast
  then show ?thesis by (auto simp del: rx_match.simps)
qed

lemma match_all_hit_nonempty:
  "rx_match r (p, s) [] \<noteq> [] \<Longrightarrow> match_all r p s \<noteq> []"
proof -
  assume "rx_match r (p, s) [] \<noteq> []"
  then obtain p' s' c t where hd: "rx_match r (p, s) [] = ((p', s'), c) # t"
    by (cases "rx_match r (p, s) []") auto
  show ?thesis
    unfolding match_all.simps[of r p s] unfolding hd by simp
qed

lemma match_all_finds:
  "rx_match r (adv p u, s0) [] \<noteq> [] \<Longrightarrow> match_all r p (u @ s0) \<noteq> []"
proof (induction u arbitrary: p)
  case Nil
  then show ?case using match_all_hit_nonempty[of r p s0] by simp
next
  case (Cons x u)
  show ?case
  proof (cases "rx_match r (p, x # u @ s0) []")
    case Nil
    from Cons.IH[of "Some x"] Cons.prems have ih: "match_all r (Some x) (u @ s0) \<noteq> []" by simp
    have "match_all r p (x # u @ s0) = match_all r (Some x) (u @ s0)"
      unfolding match_all.simps[of r p "x # u @ s0"] unfolding Nil by simp
    with ih show ?thesis by simp
  next
    case (Cons h t)
    then have "rx_match r (p, x # u @ s0) [] \<noteq> []" by simp
    from match_all_hit_nonempty[OF this] show ?thesis by simp
  qed
qed

lemma uniq_Nil_iff: "uniq xs = [] \<longleftrightarrow> xs = []"
  by (simp add: uniq_def)

declare rx_match.simps(4) [simp]

section \<open>Claims about the summarizer\<close>

text \<open>
  C9, as the code has it. When the digest request fails, whatever the error, \<open>summarize\<close>
  does not pass it on: it returns the text computed from the messages alone, which gives
  the number of user messages and the number of assistant messages and then, when there
  are any, the file-path-like tokens: the first 10 distinct matches of the file-path
  pattern in the joined contents of the messages. Each token is a piece of the joined text
  made of one or more of the code units \<^verbatim>\<open>/\<close>, \<^verbatim>\<open>.\<close>, \<^verbatim>\<open>-\<close> and word characters, a
  dot, and one or more word characters; and when the joined text holds such a piece, at
  least one token is listed.
\<close>

theorem summarize_fallback:
  assumes "backend (digest_prompt msgs) = Inl e"
  shows "summarize backend msgs =
           ''Previous conversation: '' @ show_nat (length (filter (\<lambda>m. role m = User) msgs))
           @ '' user messages, '' @ show_nat (length (filter (\<lambda>m. role m = Assistant) msgs))
           @ '' assistant responses.''
           @ (if take 10 (uniq (match_all pathPattern None (join '' '' (map content msgs)))) = [] then []
              else '' Files discussed: ''
                   @ join '', '' (take 10 (uniq (match_all pathPattern None (join '' '' (map content msgs))))) @ ''.'')
         \<and> length (take 10 (uniq (match_all pathPattern None (join '' '' (map content msgs))))) \<le> 10
         \<and> distinct (take 10 (uniq (match_all pathPattern None (join '' '' (map content msgs)))))
         \<and> (\<forall>p \<in> set (take 10 (uniq (match_all pathPattern None (join '' '' (map content msgs))))).
               sublist p (join '' '' (map content msgs))
               \<and> (\<exists>a b. p = a @ ''.'' @ b \<and> a \<noteq> [] \<and> list_all path_char a \<and> b \<noteq> [] \<and> list_all is_word b))
         \<and> (\<forall>u a b v. join '' '' (map content msgs) = u @ a @ ''.'' @ b @ v
                    \<and> a \<noteq> [] \<and> list_all path_char a \<and> b \<noteq> [] \<and> list_all is_word b
               \<longrightarrow> take 10 (uniq (match_all pathPattern None (join '' '' (map content msgs)))) \<noteq> [])"
proof -
  define allContent where "allContent = join '' '' (map content msgs)"
  define paths where "paths = take 10 (uniq (match_all pathPattern None allContent))"
  have "set paths \<subseteq> set (match_all pathPattern None allContent)"
    unfolding paths_def using set_take_subset[of 10 "uniq (match_all pathPattern None allContent)"]
    by (simp add: set_uniq)
  then have "\<forall>p \<in> set paths. sublist p allContent \<and> path_like p"
    using match_all_sublist match_all_path_like by blast
  then have sub: "\<forall>p \<in> set paths. sublist p allContent
      \<and> (\<exists>a b. p = a @ ''.'' @ b \<and> a \<noteq> [] \<and> list_all path_char a \<and> b \<noteq> [] \<and> list_all is_word b)"
    unfolding path_like_def .
  have d: "distinct paths" "length paths \<le> 10"
    unfolding paths_def by (simp_all add: distinct_uniq)
  have fnd: "\<forall>u a b v. allContent = u @ a @ ''.'' @ b @ v
                    \<and> a \<noteq> [] \<and> list_all path_char a \<and> b \<noteq> [] \<and> list_all is_word b
               \<longrightarrow> paths \<noteq> []"
  proof (intro allI impI)
    fix u a b v
    assume h: "allContent = u @ a @ ''.'' @ b @ v
                    \<and> a \<noteq> [] \<and> list_all path_char a \<and> b \<noteq> [] \<and> list_all is_word b"
    then have pl: "path_like (a @ ''.'' @ b)" unfolding path_like_def by blast
    have "rx_match pathPattern (adv None u, (a @ ''.'' @ b) @ v) [] \<noteq> []"
      by (rule pathPattern_matches[OF pl])
    from match_all_finds[OF this] h have "match_all pathPattern None allContent \<noteq> []" by simp
    then show "paths \<noteq> []" by (simp add: paths_def uniq_Nil_iff)
  qed
  have "summarize backend msgs = fallbackSummary msgs"
    using assms by (simp add: summarize_def)
  also have "\<dots> = ''Previous conversation: '' @ show_nat (length (filter (\<lambda>m. role m = User) msgs))
           @ '' user messages, '' @ show_nat (length (filter (\<lambda>m. role m = Assistant) msgs))
           @ '' assistant responses.''
           @ (if paths = [] then [] else '' Files discussed: '' @ join '', '' paths @ ''.'')"
    unfolding fallbackSummary_def Let_def allContent_def[symmetric] paths_def[symmetric]
    by (simp del: show_nat.simps)
  finally show ?thesis
    using sub d fnd unfolding paths_def allContent_def by blast
qed

lemma demo_fallback: "fallbackSummary demo_messages =
    ''Previous conversation: 1 user messages, 1 assistant responses. Files discussed: src/a.ts, ./b-c.json, a.ts.''"
  by code_simp

lemma demo_paths:
  "take 10 (uniq (match_all pathPattern None (join '' '' (map content demo_messages))))
     = [''src/a.ts'', ''./b-c.json'', ''a.ts'']"
  by code_simp

lemma demo_joined:
  "join '' '' (map content demo_messages)
     = ''see '' @ ''src/a'' @ ''.'' @ ''ts'' @ '' and ./b-c.json, then a.ts... I changed src/a.ts exit code 0''"
  by code_simp

theorem summarize_fallback_witness:
  "failing_backend (digest_prompt demo_messages) = Inl ''Error: connect ECONNREFUSED 127.0.0.1:11434''
   \<and> summarize failing_backend demo_messages =
    ''Previous conversation: 1 user messages, 1 assistant responses. Files discussed: src/a.ts, ./b-c.json, a.ts.''
   \<and> take 10 (uniq (match_all pathPattern None (join '' '' (map content demo_messages))))
       = [''src/a.ts'', ''./b-c.json'', ''a.ts'']
   \<and> join '' '' (map content demo_messages)
       = ''see '' @ ''src/a'' @ ''.'' @ ''ts'' @ '' and ./b-c.json, then a.ts... I changed src/a.ts exit code 0''
   \<and> list_all path_char ''src/a'' \<and> list_all is_word ''ts''"
proof -
  have h: "failing_backend (digest_prompt demo_messages) = Inl ''Error: connect ECONNREFUSED 127.0.0.1:11434''"
    by (simp add: failing_backend_def)
  have c: "list_all path_char ''src/a''" "list_all is_word ''ts''" by code_simp+
  have e: "''Previous conversation: '' @ show_nat (length (filter (\<lambda>m. role m = User) demo_messages))
           @ '' user messages, '' @ show_nat (length (filter (\<lambda>m. role m = Assistant) demo_messages))
           @ '' assistant responses.''
           @ (if [''src/a.ts'', ''./b-c.json'', ''a.ts''] = [] then []
              else '' Files discussed: '' @ join '', '' [''src/a.ts'', ''./b-c.json'', ''a.ts''] @ ''.'')
       = ''Previous conversation: 1 user messages, 1 assistant responses. Files discussed: src/a.ts, ./b-c.json, a.ts.''"
    by code_simp
  note inst = summarize_fallback[of failing_backend demo_messages, OF h]
  from inst[THEN conjunct1] have "summarize failing_backend demo_messages =
    ''Previous conversation: 1 user messages, 1 assistant responses. Files discussed: src/a.ts, ./b-c.json, a.ts.''"
    unfolding demo_paths e .
  with h c demo_paths demo_joined show ?thesis by blast
qed

text \<open>
  C9 as stated fails on the counts: the fallback text counts the user and the assistant
  messages only. A message of role \<open>Tool\<close> is not counted, so the text for one tool message
  is the text for no message at all.
\<close>

theorem fallback_omits_tool_count:
  "summarize failing_backend [tool_note] = ''Previous conversation: 0 user messages, 0 assistant responses.''
   \<and> summarize failing_backend [] = ''Previous conversation: 0 user messages, 0 assistant responses.''"
proof -
  have a: "fallbackSummary [tool_note] = ''Previous conversation: 0 user messages, 0 assistant responses.''"
    by code_simp
  have b: "fallbackSummary [] = ''Previous conversation: 0 user messages, 0 assistant responses.''"
    by code_simp
  show ?thesis using a b by (simp add: summarize_def failing_backend_def)
qed

section \<open>Facts about the extractor\<close>

lemma find_from_hit:
  "find_from r p s = Some (s0, cur, c) \<Longrightarrow>
     suffix s0 s \<and> (\<exists>q. (cur, c) \<in> set (rx_match r (q, s0) []))"
proof (induction s arbitrary: p)
  case Nil
  then have "s0 = []" "(cur, c) \<in> set (rx_match r (p, []) [])"
    by (auto split: list.splits)
  then show ?case by auto
next
  case (Cons x xs)
  show ?case
  proof (cases "rx_match r (p, x # xs) []")
    case Nil
    with Cons.prems have "find_from r (Some x) xs = Some (s0, cur, c)" by simp
    from Cons.IH[OF this] show ?thesis by (auto simp: suffix_Cons)
  next
    case (Cons h t)
    with Cons.prems have "s0 = x # xs" "h = (cur, c)" by (auto split: prod.splits)
    with Cons show ?thesis by (metis list.set_intros(1) suffix_order.refl)
  qed
qed

lemma exec_loop_total:
  assumes "0 < min_len r"
  shows "\<exists>ms. exec_loop r n p s = Some ms"
proof (induction s arbitrary: p rule: length_induct)
  case (1 s)
  show ?case
  proof (cases "find_from r p s")
    case None
    then show ?thesis by (simp add: exec_loop.simps[of r n p s])
  next
    case (Some a)
    obtain s0 p' s' c where a: "a = (s0, (p', s'), c)" by (metis prod.exhaust)
    from find_from_hit[of r p s s0 "(p', s')" c] Some a
    obtain q where suf: "suffix s0 s" and hit: "((p', s'), c) \<in> set (rx_match r (q, s0) [])" by auto
    from rx_match_min_len[OF hit] assms have "length s' < length s0" by simp
    with suf have lt: "length s' < length s" using suffix_length_le by fastforce
    from 1 lt obtain ms where "exec_loop r n p' s' = Some ms" by blast
    with Some a lt show ?thesis by (simp add: exec_loop.simps[of r n p s])
  qed
qed

lemma exec_loop_hits:
  "exec_loop r n p s = Some ms \<Longrightarrow> (i, c) \<in> set ms \<Longrightarrow>
     \<exists>q s0 cur. suffix s0 s \<and> i = n - length s0 \<and> (cur, c) \<in> set (rx_match r (q, s0) [])"
proof (induction s arbitrary: p ms rule: length_induct)
  case (1 s)
  show ?case
  proof (cases "find_from r p s")
    case None
    with "1.prems" show ?thesis by (simp add: exec_loop.simps[of r n p s])
  next
    case (Some a)
    obtain s0 p' s' c0 where a: "a = (s0, (p', s'), c0)" by (metis prod.exhaust)
    from find_from_hit[of r p s s0 "(p', s')" c0] Some a
    obtain q where suf: "suffix s0 s" and hit: "((p', s'), c0) \<in> set (rx_match r (q, s0) [])" by auto
    from "1.prems"(1) Some a have lt: "length s' < length s"
      by (simp add: exec_loop.simps[of r n p s] split: if_splits)
    from "1.prems"(1) Some a lt obtain ms' where ms': "exec_loop r n p' s' = Some ms'"
      and ms: "ms = (n - length s0, c0) # ms'"
      by (auto simp: exec_loop.simps[of r n p s] split: option.splits)
    from "1.prems"(2) ms consider "(i, c) = (n - length s0, c0)" | "(i, c) \<in> set ms'" by auto
    then show ?thesis
    proof cases
      case 1
      with suf hit show ?thesis by blast
    next
      case 2
      from "1.IH" lt ms' 2 obtain q1 s1 cur1 where
        h1: "suffix s1 s'" "i = n - length s1" "(cur1, c) \<in> set (rx_match r (q1, s1) [])" by blast
      have "suffix s' s"
        using rx_match_suffix[OF hit] suf by (rule suffix_order.trans)
      with h1(1) have "suffix s1 s" by (rule suffix_order.trans)
      with h1(2,3) show ?thesis by blast
    qed
  qed
qed


lemma rx_match_grp_free:
  "((p', s'), c') \<in> set (rx_match r (p, s) c) \<Longrightarrow> grp_free r \<Longrightarrow> c' = c"
proof (induction r "(p, s)" c arbitrary: p s p' s' c' rule: rx_match.induct)
  case (1 P p s c)
  then show ?case by (auto split: list.splits if_splits)
next
  case (2 r1 r2 p s c)
  from "2.prems" obtain p1 s1 c1 where a: "((p1, s1), c1) \<in> set (rx_match r1 (p, s) c)"
    and b: "((p', s'), c') \<in> set (rx_match r2 (p1, s1) c1)" by auto
  from "2.hyps"(1)[OF a] "2.hyps"(2)[OF a _ b] "2.prems"(2) show ?case by simp
next
  case (3 r1 r2 p s c)
  from "3.prems" consider "((p', s'), c') \<in> set (rx_match r1 (p, s) c)"
    | "((p', s'), c') \<in> set (rx_match r2 (p, s) c)" by auto
  then show ?case
  proof cases
    case 1
    from "3.hyps"(1)[OF 1] "3.prems"(2) show ?thesis by simp
  next
    case 2
    from "3.hyps"(2)[OF 2] "3.prems"(2) show ?thesis by simp
  qed
next
  case (4 r p s c)
  from "4.prems"(1) have "((p', s'), c') \<in> set (concat (map (\<lambda>(cur, c'). if length (snd cur) < length s then rx_match (Star r) cur c' else [])
                 (rx_match r (p, s) c)) @ [((p, s), c)])"
    by (simp only: rx_match.simps)
  then consider "c' = c" | p1 s1 c1 where "((p1, s1), c1) \<in> set (rx_match r (p, s) c)"
    "length s1 < length s" "((p', s'), c') \<in> set (rx_match (Star r) (p1, s1) c1)"
    by (auto simp del: rx_match.simps split: if_splits)
  then show ?case
  proof cases
    case 1
    then show ?thesis .
  next
    case 2
    from "4.hyps"(1)[OF 2(1)] "4.hyps"(2)[OF 2(1) _ _ 2(3)] 2(2) "4.prems"(2) show ?thesis
      by simp
  qed
next
  case (5 k r p s c)
  then show ?case by simp
next
  case (6 p s c)
  then show ?case by (auto split: if_splits)
qed

lemma rx_match_Grp_iff:
  "(cur', c') \<in> set (rx_match (Grp k r) (p, s) c) \<longleftrightarrow>
     (\<exists>c1. (cur', c1) \<in> set (rx_match r (p, s) c) \<and> c' = (k, take (length s - length (snd cur')) s) # c1)"
  by auto

lemma rx_match_Lit:
  "((p', s'), c') \<in> set (rx_match (Lit l) (p, s) c) \<Longrightarrow> l \<noteq> [] \<Longrightarrow> s = l @ s'"
proof (induction l arbitrary: p s c rule: Lit.induct)
  case 1
  then show ?case by simp
next
  case (2 a)
  then show ?case by (auto simp: Chr_def split: list.splits if_splits)
next
  case (3 a b bs)
  from "3.prems"(1) obtain p1 s1 c1 where
    a: "((p1, s1), c1) \<in> set (rx_match (Chr a) (p, s) c)"
    and b: "((p', s'), c') \<in> set (rx_match (Lit (b # bs)) (p1, s1) c1)"
    unfolding Lit.simps by (rule rx_match_SeqE)
  from a have "s = a # s1" by (auto simp: Chr_def split: list.splits if_splits)
  with "3.IH"[OF b] show ?case by simp
qed

lemma grp_free_Lit: "grp_free (Lit l)"
  by (induction l rule: Lit.induct) (simp_all add: Chr_def)

lemma rx_match_funcNames:
  assumes "((p', s'), c') \<in> set (rx_match (Alts (map Lit funcNames)) (p, s) c)"
  shows "take (length s - length s') s \<in> set funcNames \<and> c' = c"
proof -
  from assms obtain l where l: "l \<in> set funcNames" and m: "((p', s'), c') \<in> set (rx_match (Lit l) (p, s) c)"
    by (auto simp del: Lit.simps simp: funcNames_def)
  from l have "l \<noteq> []" by (auto simp: funcNames_def)
  from rx_match_Lit[OF m this] have "s = l @ s'" .
  then have "take (length s - length s') s = l" by simp
  moreover have "c' = c" using rx_match_grp_free[OF m grp_free_Lit] .
  ultimately show ?thesis using l by simp
qed

lemma funcPattern_capture:
  assumes "(cur, c) \<in> set (rx_match funcPattern (q, s0) [])"
  shows "\<exists>nm payload. c = [(2, payload), (1, nm)] \<and> nm \<in> set funcNames"
proof -
  let ?B = "Seqs [Chr CHR ''{'', Plus (Cls (\<lambda>c. c \<noteq> CHR '')'')), Chr CHR ''}'']"
  have fp: "funcPattern = Seq WordB (Seq (Grp 1 (Alts (map Lit funcNames))) (Seq sp (Seq (Chr CHR ''('')
      (Seq sp (Seq (Grp 2 ?B) (Seq sp (Chr CHR '')'')))))))"
    by (simp add: funcPattern_def)
  have gB: "grp_free ?B" by (simp add: Chr_def Plus_def)
  have gsp: "grp_free sp" by (simp add: sp_def)
  have gc: "grp_free (Chr x)" for x by (simp add: Chr_def)
  let ?R7 = "Seq sp (Chr CHR '')'')"
  let ?R6 = "Seq (Grp 2 ?B) ?R7"
  let ?R5 = "Seq sp ?R6"
  let ?R4 = "Seq (Chr CHR ''('') ?R5"
  let ?R3 = "Seq sp ?R4"
  let ?R2 = "Seq (Grp 1 (Alts (map Lit funcNames))) ?R3"
  from assms[unfolded fp] obtain p1 s1 c1 where
    m1: "((p1, s1), c1) \<in> set (rx_match WordB (q, s0) [])"
    and n1: "(cur, c) \<in> set (rx_match ?R2 (p1, s1) c1)" by (rule rx_match_SeqE)
  from n1 obtain p2 s2 c2 where
    m2: "((p2, s2), c2) \<in> set (rx_match (Grp 1 (Alts (map Lit funcNames))) (p1, s1) c1)"
    and n2: "(cur, c) \<in> set (rx_match ?R3 (p2, s2) c2)" by (rule rx_match_SeqE)
  from n2 obtain p3 s3 c3 where
    m3: "((p3, s3), c3) \<in> set (rx_match sp (p2, s2) c2)"
    and n3: "(cur, c) \<in> set (rx_match ?R4 (p3, s3) c3)" by (rule rx_match_SeqE)
  from n3 obtain p4 s4 c4 where
    m4: "((p4, s4), c4) \<in> set (rx_match (Chr CHR ''('') (p3, s3) c3)"
    and n4: "(cur, c) \<in> set (rx_match ?R5 (p4, s4) c4)" by (rule rx_match_SeqE)
  from n4 obtain p5 s5 c5 where
    m5: "((p5, s5), c5) \<in> set (rx_match sp (p4, s4) c4)"
    and n5: "(cur, c) \<in> set (rx_match ?R6 (p5, s5) c5)" by (rule rx_match_SeqE)
  from n5 obtain p6 s6 c6 where
    m6: "((p6, s6), c6) \<in> set (rx_match (Grp 2 ?B) (p5, s5) c5)"
    and n6: "(cur, c) \<in> set (rx_match ?R7 (p6, s6) c6)" by (rule rx_match_SeqE)
  from n6 obtain p7 s7 c7 where
    m7: "((p7, s7), c7) \<in> set (rx_match sp (p6, s6) c6)"
    and m8: "(cur, c) \<in> set (rx_match (Chr CHR '')'') (p7, s7) c7)" by (rule rx_match_SeqE)
  obtain p8 s8 where cur: "cur = (p8, s8)" by (cases cur)
  have "c1 = []" using rx_match_grp_free[OF m1] by simp
  from m2 obtain c2' where m2': "((p2, s2), c2') \<in> set (rx_match (Alts (map Lit funcNames)) (p1, s1) c1)"
    and c2: "c2 = (1, take (length s1 - length s2) s1) # c2'"
    unfolding rx_match_Grp_iff by (auto simp del: rx_match.simps)
  from rx_match_funcNames[OF m2'] have nm: "take (length s1 - length s2) s1 \<in> set funcNames" and "c2' = c1"
    by simp_all
  have "c3 = c2" using rx_match_grp_free[OF m3 gsp] .
  have "c4 = c3" using rx_match_grp_free[OF m4 gc] .
  have "c5 = c4" using rx_match_grp_free[OF m5 gsp] .
  from m6 obtain c6' where m6': "((p6, s6), c6') \<in> set (rx_match ?B (p5, s5) c5)"
    and c6: "c6 = (2, take (length s5 - length s6) s5) # c6'"
    unfolding rx_match_Grp_iff by (auto simp del: rx_match.simps)
  have "c6' = c5" using rx_match_grp_free[OF m6' gB] .
  have "c7 = c6" using rx_match_grp_free[OF m7 gsp] .
  have "c = c7" using rx_match_grp_free[OF m8[unfolded cur] gc] .
  show ?thesis
    using nm \<open>c = c7\<close> \<open>c7 = c6\<close> c6 \<open>c6' = c5\<close> \<open>c5 = c4\<close> \<open>c4 = c3\<close> \<open>c3 = c2\<close> c2 \<open>c2' = c1\<close> \<open>c1 = []\<close>
    by simp
qed

lemma funcNames_registered: "nm \<in> set funcNames \<Longrightarrow> getToolByName nm \<noteq> None"
  by (auto simp: funcNames_def getToolByName_def allTools_def)

lemma min_len_Lit: "l \<noteq> [] \<Longrightarrow> 0 < min_len (Lit l)"
  by (induction l rule: Lit.induct) (simp_all add: Chr_def)

lemma min_len_jsonPattern: "0 < min_len jsonPattern"
  by (simp add: jsonPattern_def Chr_def)

lemma min_len_funcPattern: "0 < min_len funcPattern"
  by (simp add: funcPattern_def funcNames_def Chr_def)

lemma exec_all_total:
  "\<exists>ms. exec_all jsonPattern text = Some ms" "\<exists>ms. exec_all funcPattern text = Some ms"
  unfolding exec_all_def
  by (rule exec_loop_total[OF min_len_jsonPattern], rule exec_loop_total[OF min_len_funcPattern])

lemma parseToolCallsAt_eq:
  assumes "exec_all jsonPattern text = Some ms" and "exec_all funcPattern text = Some ms'"
  shows "parseToolCallsAt parse text =
     Some (if concat (map (json_call parse) ms) = [] then concat (map (func_call parse) ms')
           else concat (map (json_call parse) ms))"
proof -
  define J where "J = concat (map (json_call parse) ms)"
  have "parseToolCallsAt parse text =
     (if length J = 0 then Some (concat (map (func_call parse) ms')) else Some J)"
    unfolding parseToolCallsAt_def Let_def assms J_def by simp
  then show ?thesis unfolding J_def[symmetric] by (cases J) simp_all
qed

lemma parseToolCallsAt_total: "\<exists>calls. parseToolCallsAt parse text = Some calls"
proof -
  from exec_all_total[of "text"] obtain ms ms' where
    "exec_all jsonPattern text = Some ms" "exec_all funcPattern text = Some ms'" by blast
  from parseToolCallsAt_eq[OF this] show ?thesis by blast
qed

lemma json_call_registered:
  "(i, tc) \<in> set (json_call parse m) \<Longrightarrow> getToolByName (name tc) \<noteq> None"
  by (auto simp: json_call_def split: option.splits if_splits)

lemma func_call_registered:
  assumes "exec_all funcPattern text = Some ms" and "m \<in> set ms" and "(i, tc) \<in> set (func_call parse m)"
  shows "getToolByName (name tc) \<noteq> None"
proof -
  obtain j c where m: "m = (j, c)" by (cases m)
  note run = assms(1)[unfolded exec_all_def]
  from exec_loop_hits[OF run, of j c] assms(2) m
  obtain q s0 cur where "(cur, c) \<in> set (rx_match funcPattern (q, s0) [])" by blast
  from funcPattern_capture[OF this] obtain nm payload where
    c: "c = [(2, payload), (1, nm)]" and nm: "nm \<in> set funcNames" by blast
  from assms(3) m c have "name tc = nm"
    by (auto simp: func_call_def split: option.splits)
  with funcNames_registered[OF nm] show ?thesis by simp
qed

lemma parseToolCallsAt_registered:
  assumes "parseToolCallsAt parse text = Some calls" and "(i, tc) \<in> set calls"
  shows "getToolByName (name tc) \<noteq> None"
proof -
  from exec_all_total[of "text"] obtain ms ms' where
    ms: "exec_all jsonPattern text = Some ms" "exec_all funcPattern text = Some ms'" by blast
  note eq = parseToolCallsAt_eq[OF ms, of parse]
  show ?thesis
  proof (cases "concat (map (json_call parse) ms) = []")
    case True
    with assms eq have "(i, tc) \<in> set (concat (map (func_call parse) ms'))"
      by (simp del: concat_eq_Nil_conv)
    then obtain m where "m \<in> set ms'" "(i, tc) \<in> set (func_call parse m)" by auto
    with func_call_registered[OF ms(2)] show ?thesis by blast
  next
    case False
    with assms eq have "(i, tc) \<in> set (concat (map (json_call parse) ms))"
      by (simp del: concat_eq_Nil_conv)
    then obtain m where "(i, tc) \<in> set (json_call parse m)" by auto
    then show ?thesis by (rule json_call_registered)
  qed
qed

section \<open>Facts about the orchestrator\<close>

lemma run_tool_call_fields:
  "events (run_tool_call env st tc) = events st @ [ToolCallObserved (name tc) (arguments tc),
        ToolResultObserved (name tc) (fst (call_result env tc (world st)))]"
  "world (run_tool_call env st tc) = snd (call_result env tc (world st))"
  "chat_messages (run_tool_call env st tc) = chat_messages st @
     [\<lparr>chat_role = User, chat_content = ''Tool result for '' @ name tc @ '':\<newline>'' @ fst (call_result env tc (world st))\<rparr>]"
  by (simp_all add: run_tool_call_def Let_def split: prod.splits)

lemma run_tool_calls_Cons:
  "run_tool_calls env (tc # tcs) st = run_tool_calls env tcs (run_tool_call env st tc)"
  by (simp add: run_tool_calls_def)

lemma run_tool_calls_append:
  "run_tool_calls env (xs @ ys) st = run_tool_calls env ys (run_tool_calls env xs st)"
  by (simp add: run_tool_calls_def)


lemma run_tool_calls_messages:
  "\<exists>more. chat_messages (run_tool_calls env calls st) = chat_messages st @ more"
proof (induction calls arbitrary: st)
  case Nil
  then show ?case by (simp add: run_tool_calls_def)
next
  case (Cons tc tcs)
  from Cons.IH[of "run_tool_call env st tc"] show ?case
    unfolding run_tool_calls_Cons by (auto simp: run_tool_call_fields)
qed

lemma chat_round_Again:
  assumes "llm env (inject (toolDesc env) (chat_messages st)) (world st) = ((chunks, None), w1)"
    and "parseToolCalls (parse_json env) (concat (filter (\<lambda>t. t \<noteq> []) chunks)) = Some calls"
    and "calls \<noteq> []"
  shows "chat_round env st =
     Again (run_tool_calls env calls
       (st\<lparr>world := w1, events := events st @ map Token (filter (\<lambda>t. t \<noteq> []) chunks),
           chat_messages := chat_messages st @
             [\<lparr>chat_role = Assistant, chat_content = concat (filter (\<lambda>t. t \<noteq> []) chunks)\<rparr>]\<rparr>))"
  using assms by (simp add: chat_round_def Let_def)






lemma func_text_eval: "parseToolCalls JSON_parse func_text = Some [bash_call ''ls'']"
  by code_simp




lemma bash_registered: "getToolByName ''bash'' = Some bashTool"
  by code_simp

lemma demo_first_reply:
  \<open>parseToolCalls JSON_parse (concat (filter (\<lambda>t. t \<noteq> []) [''I will look. '', [], ''{"name": "bash", "arguments": {"command": "ls"}}'']))
     = Some ([] @ bash_call ''ls'' # [])\<close>
  by code_simp

lemma demo_second_reply:
  "parseToolCalls JSON_parse ''The directory could not be listed.'' = Some []"
  by code_simp


section \<open>Claims about the extractor and the orchestrator\<close>



text \<open>
  C3. In a round whose reply holds tool calls, a call whose capability throws yields the
  user-role message \<^verbatim>\<open>Tool result for <name>:\nError executing <name>: <error>\<close>, which is
  appended to the messages after those of the calls before it; the calls after it are
  still run, the round ends in another request to the model, and the outcome of the loop
  is the outcome of the loop on the extended messages.
\<close>

theorem tool_error_becomes_result:
  assumes "llm env (inject (toolDesc env) (chat_messages st)) (world st) = ((chunks, None), w1)"
    and "parseToolCalls (parse_json env) (concat (filter (\<lambda>t. t \<noteq> []) chunks)) = Some (pre @ tc # post)"
    and "st1 = run_tool_calls env pre
           (st\<lparr>world := w1, events := events st @ map Token (filter (\<lambda>t. t \<noteq> []) chunks),
               chat_messages := chat_messages st @
                 [\<lparr>chat_role = Assistant, chat_content = concat (filter (\<lambda>t. t \<noteq> []) chunks)\<rparr>]\<rparr>)"
    and "getToolByName (name tc) = Some t"
    and "execute env t (arguments tc) (world st1) = (Inl e, w2)"
  shows "\<exists>more. chat_round env st = Again (run_tool_calls env post (run_tool_call env st1 tc))
     \<and> chat_messages (run_tool_call env st1 tc) = chat_messages st1 @
          [\<lparr>chat_role = User,
            chat_content = ''Tool result for '' @ name tc @ '':\<newline>'' @ ''Error executing '' @ name tc @ '': '' @ e\<rparr>]
     \<and> chat_messages (run_tool_calls env post (run_tool_call env st1 tc)) =
          chat_messages st1 @
          [\<lparr>chat_role = User,
            chat_content = ''Tool result for '' @ name tc @ '':\<newline>'' @ ''Error executing '' @ name tc @ '': '' @ e\<rparr>]
          @ more
     \<and> world (run_tool_call env st1 tc) = w2
     \<and> chat env st = chat env (run_tool_calls env post (run_tool_call env st1 tc))"
proof -
  have r: "chat_round env st = Again (run_tool_calls env post (run_tool_call env st1 tc))"
    using chat_round_Again[OF assms(1,2)] assms(3)
    by (simp add: run_tool_calls_append run_tool_calls_Cons)
  have cr: "call_result env tc (world st1) = (''Error executing '' @ name tc @ '': '' @ e, w2)"
    using assms(4,5) by (simp add: call_result_def)
  have m: "chat_messages (run_tool_call env st1 tc) = chat_messages st1 @
          [\<lparr>chat_role = User,
            chat_content = ''Tool result for '' @ name tc @ '':\<newline>'' @ ''Error executing '' @ name tc @ '': '' @ e\<rparr>]"
    by (simp add: run_tool_call_fields cr)
  from run_tool_calls_messages[of env post "run_tool_call env st1 tc"] obtain more where
    "chat_messages (run_tool_calls env post (run_tool_call env st1 tc)) =
       chat_messages (run_tool_call env st1 tc) @ more" by blast
  then have m2: "chat_messages (run_tool_calls env post (run_tool_call env st1 tc)) =
          chat_messages st1 @
          [\<lparr>chat_role = User,
            chat_content = ''Tool result for '' @ name tc @ '':\<newline>'' @ ''Error executing '' @ name tc @ '': '' @ e\<rparr>]
          @ more" by (simp add: m)
  have w: "world (run_tool_call env st1 tc) = w2"
    by (simp add: run_tool_call_fields cr)
  have c: "chat env st = chat env (run_tool_calls env post (run_tool_call env st1 tc))"
    by (subst chat.simps) (simp add: r)
  from r m m2 w c show ?thesis by blast
qed

theorem tool_error_becomes_result_witness:
  \<open>llm demo_runtime (inject (toolDesc demo_runtime) (chat_messages demo_state)) (world demo_state)
     = (([''I will look. '', [], ''{"name": "bash", "arguments": {"command": "ls"}}''], None), 1)
   \<and> getToolByName (name (bash_call ''ls'')) = Some bashTool
   \<and> execute demo_runtime bashTool (arguments (bash_call ''ls'')) 1 = (Inl ''Error: spawn sh ENOENT'', 1)
   \<and> map_option fst (chat demo_runtime demo_state) = Some (Inr ''The directory could not be listed.'')
   \<and> \<lparr>chat_role = User, chat_content = ''Tool result for bash:\<newline>Error executing bash: Error: spawn sh ENOENT''\<rparr>
       \<in> set (chat_messages (snd (the (chat demo_runtime demo_state))))\<close>
proof -
  define chunks where \<open>chunks = [''I will look. '', [], ''{"name": "bash", "arguments": {"command": "ls"}}'']\<close>
  define st1 where "st1 = run_tool_calls demo_runtime []
           (demo_state\<lparr>world := 1, events := events demo_state @ map Token (filter (\<lambda>t. t \<noteq> []) chunks),
               chat_messages := chat_messages demo_state @
                 [\<lparr>chat_role = Assistant, chat_content = concat (filter (\<lambda>t. t \<noteq> []) chunks)\<rparr>]\<rparr>)"
  have h1: "llm demo_runtime (inject (toolDesc demo_runtime) (chat_messages demo_state)) (world demo_state)
     = ((chunks, None), 1)"
    by (simp add: demo_runtime_def demo_state_def chunks_def)
  have h2: "parseToolCalls (parse_json demo_runtime) (concat (filter (\<lambda>t. t \<noteq> []) chunks)) = Some ([] @ bash_call ''ls'' # [])"
    using demo_first_reply by (simp add: demo_runtime_def chunks_def)
  have n: "name (bash_call ''ls'') = ''bash''" by (simp add: bash_call_def)
  have h4: "getToolByName (name (bash_call ''ls'')) = Some bashTool" by (simp add: n bash_registered)
  have w1: "world st1 = 1" by (simp add: st1_def run_tool_calls_def)
  have h5: "execute demo_runtime bashTool (arguments (bash_call ''ls'')) (world st1) = (Inl ''Error: spawn sh ENOENT'', 1)"
    by (simp add: demo_runtime_def w1)
  note inst = tool_error_becomes_result[OF h1 h2 st1_def h4 h5]
  define st2 where "st2 = run_tool_calls demo_runtime [] (run_tool_call demo_runtime st1 (bash_call ''ls''))"
  from inst have c: "chat demo_runtime demo_state = chat demo_runtime st2"
    and m: "\<lparr>chat_role = User, chat_content = ''Tool result for bash:\<newline>Error executing bash: Error: spawn sh ENOENT''\<rparr>
       \<in> set (chat_messages st2)"
    unfolding st2_def by (auto simp: n)
  from inst have wrt: "world (run_tool_call demo_runtime st1 (bash_call ''ls'')) = 1" by blast
  have w2: "world st2 = 1" by (simp add: st2_def run_tool_calls_def wrt)
  have r2: "chat_round demo_runtime st2 = Final ''The directory could not be listed.''
      (st2\<lparr>world := 2, events := events st2 @ [Token ''The directory could not be listed.'']\<rparr>)"
    using demo_second_reply by (simp add: chat_round_def demo_runtime_def w2 Let_def)
  have f: "chat demo_runtime st2 = Some (Inr ''The directory could not be listed.'',
      st2\<lparr>world := 2, events := events st2 @ [Token ''The directory could not be listed.'']\<rparr>)"
    by (subst chat.simps) (simp add: r2)
  show ?thesis
    using h1 h4 h5 c f m by (simp add: chunks_def w1)
qed



text \<open>
  C10. On every text the extractor returns, and every request it returns, by either
  grammar, names a capability of the registry; for such a request the orchestrator's
  result is what the capability returns or the rendering of what it throws, never the
  unknown-tool text.
\<close>

theorem extracted_calls_registered:
  "\<exists>calls. parseToolCalls parse text = Some calls
     \<and> (\<forall>tc \<in> set calls. \<exists>t. getToolByName (name tc) = Some t
           \<and> call_result env tc w =
               (case execute env t (arguments tc) w of
                  (Inr r, w') \<Rightarrow> (r, w')
                | (Inl e, w') \<Rightarrow> (''Error executing '' @ name tc @ '': '' @ e, w')))"
proof -
  from parseToolCallsAt_total obtain ics where ics: "parseToolCallsAt parse text = Some ics" by blast
  have "\<exists>t. getToolByName (name tc) = Some t \<and> call_result env tc w =
               (case execute env t (arguments tc) w of
                  (Inr r, w') \<Rightarrow> (r, w')
                | (Inl e, w') \<Rightarrow> (''Error executing '' @ name tc @ '': '' @ e, w'))"
    if "tc \<in> set (map snd ics)" for tc
  proof -
    from that obtain i where "(i, tc) \<in> set ics" by auto
    from parseToolCallsAt_registered[OF ics this] obtain t where "getToolByName (name tc) = Some t"
      by blast
    then show ?thesis by (simp add: call_result_def)
  qed
  then show ?thesis using ics by (simp add: parseToolCalls_def)
qed

theorem extracted_calls_registered_witness:
  "parseToolCalls JSON_parse func_text = Some [bash_call ''ls'']
   \<and> getToolByName (name (bash_call ''ls'')) = Some bashTool
   \<and> call_result demo_runtime (bash_call ''ls'') 0 = (''Error executing bash: Error: spawn sh ENOENT'', 0)"
proof -
  have n: "name (bash_call ''ls'') = ''bash''" by (simp add: bash_call_def)
  have "call_result demo_runtime (bash_call ''ls'') 0 = (''Error executing bash: Error: spawn sh ENOENT'', 0)"
    by (simp add: call_result_def n bash_registered demo_runtime_def)
  then show ?thesis
    using extracted_calls_registered[of JSON_parse func_text demo_runtime 0] func_text_eval bash_registered n
    by simp
qed

section \<open>Facts about the persistence adapter\<close>

lemma map_of_filter_fst:
  "map_of (filter (\<lambda>e. fst e \<noteq> p) xs) q = (if q = p then None else map_of xs q)"
  by (induction xs) auto

lemma fs_write_ok:
  assumes "fs_write f p d = Some f'"
  shows "fs_read f' p = Some d" and "fs_exists f' p" and "q \<noteq> p \<Longrightarrow> fs_read f' q = fs_read f q"
    and "dirs f' = dirs f" and "denied f' = denied f" and "p \<in> set (map fst (files f'))"
  using assms
  by (auto simp: fs_write_def fs_read_def fs_exists_def map_of_filter_fst split: if_splits)

lemma mkdir_p_ok:
  assumes "mkdir_p f d = Some f'"
  shows "files f' = files f" and "d \<in> set (dirs f')" and "denied f' = denied f"
  using assms by (auto simp: mkdir_p_def split: if_splits)

lemma fs_rm_ok:
  assumes "fs_rm f p = Some f'"
  shows "q \<noteq> p \<Longrightarrow> fs_read f' q = fs_read f q" and "dirs f' = dirs f"
    and "q \<noteq> p \<Longrightarrow> q \<in> set (map fst (files f)) \<Longrightarrow> q \<in> set (map fst (files f'))"
  using assms
  by (auto simp: fs_rm_def fs_read_def map_of_filter_fst split: if_splits)

lemma storage_save_ok:
  assumes "fst (storage_save rt sd s f) = Inr ()"
  shows "fs_read (snd (storage_save rt sd s f)) (getCurrentPath rt sd (projectRoot s)) = Some (JSON_stringify rt s)"
    and "fs_exists (snd (storage_save rt sd s f)) (getCurrentPath rt sd (projectRoot s))"
proof -
  from assms obtain f1 f2 where
    m: "mkdir_p f (getSessionDir rt sd (projectRoot s)) = Some f1"
    and w: "fs_write f1 (getCurrentPath rt sd (projectRoot s)) (JSON_stringify rt s) = Some f2"
    and r: "storage_save rt sd s f = (Inr (), f2)"
    by (auto simp: storage_save_def Let_def split: option.splits)
  from fs_write_ok(1,2)[OF w] r
  show "fs_read (snd (storage_save rt sd s f)) (getCurrentPath rt sd (projectRoot s)) = Some (JSON_stringify rt s)"
    and "fs_exists (snd (storage_save rt sd s f)) (getCurrentPath rt sd (projectRoot s))"
    by simp_all
qed

lemma archive_path_differs:
  "getArchiveDir rt sd root @ ''/'' @ x @ ''.json'' \<noteq> getCurrentPath rt sd root"
  by (simp add: getArchiveDir_def getCurrentPath_def)

lemma storage_archive_unfold:
  "storage_archive rt sd s isoTime f =
     (case mkdir_p f (getArchiveDir rt sd (projectRoot s)) of
        None \<Rightarrow> (Inl MkdirFailed, f)
      | Some f1 \<Rightarrow>
          (case fs_write f1 (getArchiveDir rt sd (projectRoot s) @ ''/'' @ archive_stamp isoTime @ ''.json'')
                  (JSON_stringify rt s) of
             None \<Rightarrow> (Inl WriteFailed, f1)
           | Some f2 \<Rightarrow>
               if fs_exists f2 (getCurrentPath rt sd (projectRoot s))
               then (case fs_rm f2 (getCurrentPath rt sd (projectRoot s)) of
                       None \<Rightarrow> (Inl RmFailed, f2)
                     | Some f3 \<Rightarrow>
                         (Inr (getArchiveDir rt sd (projectRoot s) @ ''/'' @ archive_stamp isoTime @ ''.json''), f3))
               else (Inr (getArchiveDir rt sd (projectRoot s) @ ''/'' @ archive_stamp isoTime @ ''.json''), f2)))"
  unfolding storage_archive_def Let_def by (rule refl)

lemma storage_archive_ok:
  assumes "storage_archive rt sd s isoTime f = (Inr path, f')"
  shows "path = getArchiveDir rt sd (projectRoot s) @ ''/'' @ archive_stamp isoTime @ ''.json''
    \<and> fs_read f' path = Some (JSON_stringify rt s)
    \<and> path \<in> set (map fst (files f'))"
proof -
  let ?ad = "getArchiveDir rt sd (projectRoot s)"
  let ?ap = "?ad @ ''/'' @ archive_stamp isoTime @ ''.json''"
  let ?cp = "getCurrentPath rt sd (projectRoot s)"
  note ne = archive_path_differs[of rt sd "projectRoot s" "archive_stamp isoTime"]
  note u = storage_archive_unfold[of rt sd s isoTime f]
  show ?thesis
  proof (cases "mkdir_p f ?ad")
    case None
    with assms u show ?thesis by simp
  next
    case (Some f1)
    note m = Some
    show ?thesis
    proof (cases "fs_write f1 ?ap (JSON_stringify rt s)")
      case None
      with assms u m show ?thesis by simp
    next
      case (Some f2)
      note w = Some
      show ?thesis
      proof (cases "fs_exists f2 ?cp")
        case False
        with assms u m w have "path = ?ap" "f' = f2" by simp_all
        with fs_write_ok(1,6)[OF w] show ?thesis by simp
      next
        case True
        note ex = True
        show ?thesis
        proof (cases "fs_rm f2 ?cp")
          case None
          with assms u m w ex show ?thesis by simp
        next
          case (Some f3)
          with assms u m w ex have pf: "path = ?ap" "f' = f3" by simp_all
          from fs_rm_ok(1)[OF Some ne] fs_rm_ok(3)[OF Some ne] fs_write_ok(1,6)[OF w] pf
          show ?thesis by simp
        qed
      qed
    qed
  qed
qed

lemma storage_archive_failed:
  assumes "fst (storage_archive rt sd s isoTime f) = Inl e"
  shows "fs_read (snd (storage_archive rt sd s isoTime f)) (getCurrentPath rt sd (projectRoot s))
         = fs_read f (getCurrentPath rt sd (projectRoot s))"
proof -
  let ?ad = "getArchiveDir rt sd (projectRoot s)"
  let ?ap = "?ad @ ''/'' @ archive_stamp isoTime @ ''.json''"
  let ?cp = "getCurrentPath rt sd (projectRoot s)"
  note ne = archive_path_differs[of rt sd "projectRoot s" "archive_stamp isoTime", symmetric]
  show ?thesis
  proof (cases "mkdir_p f ?ad")
    case None
    then show ?thesis by (simp add: storage_archive_unfold)
  next
    case (Some f1)
    note m = Some
    have r1: "fs_read f1 ?cp = fs_read f ?cp" using mkdir_p_ok(1)[OF m] by (simp add: fs_read_def)
    show ?thesis
    proof (cases "fs_write f1 ?ap (JSON_stringify rt s)")
      case None
      with m r1 show ?thesis by (simp add: storage_archive_unfold)
    next
      case (Some f2)
      note w = Some
      have r2: "fs_read f2 ?cp = fs_read f ?cp" using fs_write_ok(3)[OF w ne] r1 by simp
      show ?thesis
      proof (cases "fs_exists f2 ?cp")
        case False
        with m w assms show ?thesis by (simp add: storage_archive_unfold)
      next
        case True
        show ?thesis
        proof (cases "fs_rm f2 ?cp")
          case None
          with m w True r2 show ?thesis by (simp add: storage_archive_unfold)
        next
          case (Some f3)
          with m w True assms show ?thesis by (simp add: storage_archive_unfold)
        qed
      qed
    qed
  qed
qed

lemma listArchived_no_file:
  "getArchiveDir rt sd root \<notin> set (map fst (files f)) \<Longrightarrow> listArchived rt sd root f = []"
  by (simp add: listArchived_def fs_exists_def)

lemma manager_archive_cases:
  obtains e f1 where "manager_archive rt sd isoTime uuid now1 now2 mgr f = (Inl e, mgr\<lparr>saveTimeout := False\<rparr>, f1)"
  | f1 e f2 where "storage_save rt sd (session mgr) f = (Inr (), f1)"
      "storage_archive rt sd (session mgr) isoTime f1 = (Inl e, f2)"
      "manager_archive rt sd isoTime uuid now1 now2 mgr f = (Inl e, mgr\<lparr>saveTimeout := False, dirty := False\<rparr>, f2)"
  | f1 path f2 where "storage_save rt sd (session mgr) f = (Inr (), f1)"
      "storage_archive rt sd (session mgr) isoTime f1 = (Inr path, f2)"
      "manager_archive rt sd isoTime uuid now1 now2 mgr f =
         (Inr path,
          mgr\<lparr>saveTimeout := False, dirty := False,
              session := createEmptySession uuid now1 now2 (projectRoot (session mgr)) (model (session mgr))\<rparr>,
          f2)"
proof -
  obtain r1 f1 where s1: "storage_save rt sd (session mgr) f = (r1, f1)" by (cases "storage_save rt sd (session mgr) f")
  show ?thesis
  proof (cases r1)
    case (Inl e)
    with s1 have "manager_archive rt sd isoTime uuid now1 now2 mgr f = (Inl e, mgr\<lparr>saveTimeout := False\<rparr>, f1)"
      by (simp add: manager_archive_def manager_save_def)
    then show ?thesis by (rule that(1))
  next
    case (Inr u)
    with s1 have s1': "storage_save rt sd (session mgr) f = (Inr (), f1)" by simp
    then have ms: "manager_save rt sd mgr f = (Inr (), mgr\<lparr>saveTimeout := False, dirty := False\<rparr>, f1)"
      by (simp add: manager_save_def)
    obtain r2 f2 where s2: "storage_archive rt sd (session mgr) isoTime f1 = (r2, f2)"
      by (cases "storage_archive rt sd (session mgr) isoTime f1")
    show ?thesis
    proof (cases r2)
      case (Inl e)
      with s2 ms have "manager_archive rt sd isoTime uuid now1 now2 mgr f = (Inl e, mgr\<lparr>saveTimeout := False, dirty := False\<rparr>, f2)"
        by (simp add: manager_archive_def)
      with s1' s2 Inl show ?thesis using that(2) by simp
    next
      case (Inr path)
      with s2 ms have "manager_archive rt sd isoTime uuid now1 now2 mgr f =
         (Inr path,
          mgr\<lparr>saveTimeout := False, dirty := False,
              session := createEmptySession uuid now1 now2 (projectRoot (session mgr)) (model (session mgr))\<rparr>,
          f2)"
        by (simp add: manager_archive_def)
      with s1' s2 Inr show ?thesis using that(3) by simp
    qed
  qed
qed

lemma manager_archive_ok:
  assumes "manager_archive rt sd isoTime uuid now1 now2 mgr f = (Inr path, mgr', f')"
  shows "\<exists>f1. storage_archive rt sd (session mgr) isoTime f1 = (Inr path, f')
     \<and> session mgr' = createEmptySession uuid now1 now2 (projectRoot (session mgr)) (model (session mgr))"
  by (rule manager_archive_cases[of rt sd isoTime uuid now1 now2 mgr f]) (use assms in auto)

lemma manager_archive_failed:
  assumes "fst (manager_archive rt sd isoTime uuid now1 now2 mgr f) = Inl e"
  shows "session (fst (snd (manager_archive rt sd isoTime uuid now1 now2 mgr f))) = session mgr"
  by (rule manager_archive_cases[of rt sd isoTime uuid now1 now2 mgr f]) (use assms in auto)

lemma demo_round_trip:
  "JSON_parse_session demo_io (JSON_stringify demo_io demo_session) = Some demo_session"
  by code_simp

lemma demo_save: "fst (storage_save demo_io demo_dir demo_session empty_fs) = Inr ()"
  by code_simp

lemma demo_archive:
  "fst (manager_archive demo_io demo_dir demo_time ''0b9d5c1e-0000-4000-8000-000000000002'' 1700000000500 1700000000500
          demo_manager empty_fs) = Inr demo_archive_path"
  by code_simp

lemma locked_archive:
  "fst (storage_archive demo_io demo_dir demo_session demo_time locked_fs) = Inl WriteFailed"
  by code_simp

lemma locked_current: "fs_read locked_fs (getCurrentPath demo_io demo_dir (projectRoot demo_session)) = Some ''{}''"
  by code_simp

section \<open>Claims about persistence\<close>

text \<open>
  C4. When \<open>storage_save\<close> completes and the runtime's JSON text of the session reads back
  as the session, \<open>storage_load\<close> for the session's project root returns that session, equal
  in every field: the file written is the file read, and it is read whole.
\<close>

theorem save_then_load:
  assumes "fst (storage_save rt sessionsDir s f) = Inr ()"
    and "JSON_parse_session rt (JSON_stringify rt s) = Some s"
  shows "storage_load rt sessionsDir (projectRoot s) (snd (storage_save rt sessionsDir s f)) = Some s"
  using storage_save_ok[OF assms(1)] assms(2)
  by (simp add: storage_load_def)

theorem save_then_load_witness:
  "fst (storage_save demo_io demo_dir demo_session empty_fs) = Inr ()
   \<and> JSON_parse_session demo_io (JSON_stringify demo_io demo_session) = Some demo_session
   \<and> storage_load demo_io demo_dir (projectRoot demo_session)
        (snd (storage_save demo_io demo_dir demo_session empty_fs)) = Some demo_session"
  using save_then_load[OF demo_save demo_round_trip] demo_save demo_round_trip by simp

text \<open>
  C5 fails on the code. The manager's \<open>archive\<close> completes and the snapshot is on disk, but
  the listing of archived sessions for the same project root is empty: \<open>listArchived\<close> first
  asks whether the archive directory exists with the test for regular files, which a
  directory never passes, and returns the empty list without looking into the directory.
\<close>

theorem archive_then_list_empty:
  "fst (manager_archive demo_io demo_dir demo_time ''0b9d5c1e-0000-4000-8000-000000000002''
          1700000000500 1700000000500 demo_manager empty_fs) = Inr demo_archive_path
   \<and> fs_read (snd (snd (manager_archive demo_io demo_dir demo_time ''0b9d5c1e-0000-4000-8000-000000000002''
          1700000000500 1700000000500 demo_manager empty_fs))) demo_archive_path
       = Some (JSON_stringify demo_io demo_session)
   \<and> listArchived demo_io demo_dir (projectRoot demo_session)
        (snd (snd (manager_archive demo_io demo_dir demo_time ''0b9d5c1e-0000-4000-8000-000000000002''
          1700000000500 1700000000500 demo_manager empty_fs))) = []"
proof -
  let ?r = "manager_archive demo_io demo_dir demo_time ''0b9d5c1e-0000-4000-8000-000000000002''
              1700000000500 1700000000500 demo_manager empty_fs"
  have eq: "?r = (Inr demo_archive_path, fst (snd ?r), snd (snd ?r))"
    using demo_archive by (metis prod.collapse)
  from manager_archive_ok[OF eq] obtain f1 where
    ar: "storage_archive demo_io demo_dir (session demo_manager) demo_time f1 = (Inr demo_archive_path, snd (snd ?r))"
    by blast
  have s: "session demo_manager = demo_session" by (simp add: demo_manager_def)
  from storage_archive_ok[OF ar] have snap:
    "fs_read (snd (snd ?r)) demo_archive_path = Some (JSON_stringify demo_io demo_session)"
    by (simp add: s)
  have "listArchived demo_io demo_dir (projectRoot demo_session) (snd (snd ?r)) = []"
    by code_simp
  with demo_archive snap show ?thesis by simp
qed

end
